theory Spec2Isabelle
  imports Complex_Main "HOL-Library.Word"
begin

section \<open>The class template \<open>Point<CoordinateType>\<close> (Point.hpp)\<close>

text \<open>
  A \<open>Point<CoordinateType>\<close> object has exactly the three member variables
  \<open>x_\<close>, \<open>y_\<close>, \<open>z_\<close> of the source, all of the template's parameter type. The
  template parameter is the type variable \<open>'a\<close>. A name cannot end in an underscore
  here, so the members are written \<open>x_'\<close>, \<open>y_'\<close>, \<open>z_'\<close>.
\<close>

record 'a Point =
  x_' :: 'a
  y_' :: 'a
  z_' :: 'a

text \<open>
  Member functions act on the object \<open>this\<close> points to, and the mutable accessors hand
  out references into that object. Objects therefore live in a store: an address holds
  a \<open>Point\<close>, a member function takes the store and the address of its object, and a
  member function that can change an object returns the store it leaves behind.
\<close>

type_synonym addr = nat

type_synonym 'a heap = "addr \<Rightarrow> 'a Point"

text \<open>
  A \<open>CoordinateType&\<close> as the mutable accessors return it: it designates one member
  variable of one object. Reading through it is \<open>ref_get\<close>, assigning through it
  (\<open>p.x() = v\<close>) is \<open>ref_assign\<close>.
\<close>

datatype member = Member_x | Member_y | Member_z

datatype coord_ref = Ref addr member

fun ref_get :: "'a heap \<Rightarrow> coord_ref \<Rightarrow> 'a" where
  "ref_get h (Ref a Member_x) = x_' (h a)"
| "ref_get h (Ref a Member_y) = y_' (h a)"
| "ref_get h (Ref a Member_z) = z_' (h a)"

fun ref_assign :: "'a heap \<Rightarrow> coord_ref \<Rightarrow> 'a \<Rightarrow> 'a heap" where
  "ref_assign h (Ref a Member_x) v = h(a := (h a)\<lparr>x_' := v\<rparr>)"
| "ref_assign h (Ref a Member_y) v = h(a := (h a)\<lparr>y_' := v\<rparr>)"
| "ref_assign h (Ref a Member_z) v = h(a := (h a)\<lparr>z_' := v\<rparr>)"

subsection \<open>Constructor and accessors\<close>

text \<open>
  \<^verbatim>\<open>Point(const CoordinateType& x, const CoordinateType& y, const CoordinateType& z)
    : x_{x}, y_{y}, z_{z} { }\<close>
  The constructor initialises the object at \<open>this\<close> with copies of its three arguments;
  it has no other statement, and no check.
\<close>

definition Point :: "'a heap \<Rightarrow> addr \<Rightarrow> 'a \<Rightarrow> 'a \<Rightarrow> 'a \<Rightarrow> 'a heap" where
  "Point h this a b c = h(this := \<lparr>x_' = a, y_' = b, z_' = c\<rparr>)"

text \<open>The \<open>const\<close> accessors: \<^verbatim>\<open>return x_;\<close> read on a constant object.\<close>

definition x :: "'a heap \<Rightarrow> addr \<Rightarrow> 'a" where
  "x h this = x_' (h this)"

definition y :: "'a heap \<Rightarrow> addr \<Rightarrow> 'a" where
  "y h this = y_' (h this)"

definition z :: "'a heap \<Rightarrow> addr \<Rightarrow> 'a" where
  "z h this = z_' (h this)"

text \<open>
  The non-\<open>const\<close> overloads: the same \<^verbatim>\<open>return x_;\<close>, but the result is a
  \<open>CoordinateType&\<close>, the member variable itself.
\<close>

definition x_ref :: "addr \<Rightarrow> coord_ref" where
  "x_ref this = Ref this Member_x"

definition y_ref :: "addr \<Rightarrow> coord_ref" where
  "y_ref this = Ref this Member_y"

definition z_ref :: "addr \<Rightarrow> coord_ref" where
  "z_ref this = Ref this Member_z"

subsection \<open>\<open>distanceFrom\<close>\<close>

text \<open>
  The body of \<open>distanceFrom\<close> uses four operations on coordinates, and the template
  compiles for exactly the coordinate types that have them: \<open>operator-\<close> on two
  coordinates, \<open>operator*\<close> on two differences, \<open>operator+\<close> on products, and the
  overload of \<open>std::sqrt\<close> chosen for the sum, whose result is returned as a
  \<open>double\<close>. An instantiation supplies them; \<open>'t\<close> is the coordinate type, \<open>'e\<close>
  the type of the arithmetic expressions and \<open>'r\<close> the returned value.
\<close>

record ('t, 'e, 'r) arith =
  op_minus :: "'t \<Rightarrow> 't \<Rightarrow> 'e"
  op_times :: "'e \<Rightarrow> 'e \<Rightarrow> 'e"
  op_plus :: "'e \<Rightarrow> 'e \<Rightarrow> 'e"
  std_sqrt :: "'e \<Rightarrow> 'r"

text \<open>
  \<^verbatim>\<open>return std::sqrt(
      (x_ - other.x_) * (x_ - other.x_)
      + (y_ - other.y_) * (y_ - other.y_)
      + (z_ - other.z_) * (z_ - other.z_));\<close>
  \<open>a + b + c\<close> is \<open>(a + b) + c\<close>. The function returns its value together with the
  store after the call.
\<close>

definition distanceFrom ::
  "('t, 'e, 'r) arith \<Rightarrow> 't heap \<Rightarrow> addr \<Rightarrow> addr \<Rightarrow> 'r \<times> 't heap" where
  "distanceFrom T h this other =
     (std_sqrt T
        (op_plus T
           (op_plus T
              (op_times T (op_minus T (x_' (h this)) (x_' (h other)))
                          (op_minus T (x_' (h this)) (x_' (h other))))
              (op_times T (op_minus T (y_' (h this)) (y_' (h other)))
                          (op_minus T (y_' (h this)) (y_' (h other)))))
           (op_times T (op_minus T (z_' (h this)) (z_' (h other)))
                       (op_minus T (z_' (h this)) (z_' (h other))))),
      h)"

text \<open>
  The computation as the specification words it: for each axis subtract the
  corresponding coordinates, square the difference as the product of the difference
  with itself, sum the three squares, take the square root of the sum.
\<close>

definition axis_differences :: "('t, 'e, 'r) arith \<Rightarrow> 't Point \<Rightarrow> 't Point \<Rightarrow> 'e list" where
  "axis_differences T p q = map (\<lambda>axis. op_minus T (axis p) (axis q)) [x_', y_', z_']"

definition squared :: "('t, 'e, 'r) arith \<Rightarrow> 'e \<Rightarrow> 'e" where
  "squared T d = op_times T d d"

definition euclidean_distance :: "('t, 'e, 'r) arith \<Rightarrow> 't Point \<Rightarrow> 't Point \<Rightarrow> 'r" where
  "euclidean_distance T p q =
     (let squares = map (squared T) (axis_differences T p q)
      in std_sqrt T (foldl (op_plus T) (hd squares) (tl squares)))"

section \<open>The arithmetic of the instantiations\<close>

subsection \<open>\<open>double\<close>: IEEE 754 binary64\<close>

text \<open>
  \<open>distanceFrom\<close> returns a \<open>double\<close> and takes the square root with
  \<open>std::sqrt\<close>; for \<open>Point<double>\<close> the coordinates are doubles too. A double is
  a NaN, an infinity with its sign (\<open>True\<close> is negative), or a finite value
  \<open>Fin s m e\<close>, which stands for \<open>(-1)^s * m * 2^e\<close>. NaN payloads are not
  distinguished. The operations produce the significand and exponent of the binary64
  encoding: \<open>2^52 \<le> m < 2^53\<close> with \<open>-1074 \<le> e \<le> 971\<close> for a normal number,
  \<open>m < 2^52\<close> with \<open>e = -1074\<close> for a subnormal number and for zero. They accept any
  \<open>Fin s m e\<close> and compute with its value.
\<close>

datatype double = NaN | Inf bool | Fin bool nat int

text \<open>\<open>+0.0\<close>.\<close>

definition dbl_zero :: double where
  "dbl_zero = Fin False 0 (- 1074)"

text \<open>The number of binary digits of a natural number.\<close>

fun bitlen :: "nat \<Rightarrow> nat" where
  "bitlen n = (if n = 0 then 0 else Suc (bitlen (n div 2)))"

declare bitlen.simps [simp del]

text \<open>
  Rounding to nearest, ties to even (the default rounding mode): the value
  \<open>(-1)^s * m * 2^e\<close> becomes the nearest double, an infinity when the rounded
  value is \<open>2^1024\<close> or more. \<open>q\<close> is the exponent of the last place kept:
  53 digits, or fewer for a subnormal result. \<open>pack\<close> carries a significand that
  rounded up to \<open>2^53\<close> into the next exponent and detects overflow.
\<close>

definition pack :: "bool \<Rightarrow> nat \<Rightarrow> int \<Rightarrow> double" where
  "pack s t q =
     (if t = 2 ^ 53 then (if 971 < q + 1 then Inf s else Fin s (2 ^ 52) (q + 1))
      else if 971 < q then Inf s
      else Fin s t q)"

definition round_nearest_even :: "bool \<Rightarrow> nat \<Rightarrow> int \<Rightarrow> double" where
  "round_nearest_even s m e =
     (if m = 0 then Fin s 0 (- 1074)
      else
        let q = max (e + int (bitlen m) - 53) (- 1074) in
        if q \<le> e then pack s (m * 2 ^ nat (e - q)) q
        else
          let d = nat (q - e);
              t = m div 2 ^ d;
              r = m mod 2 ^ d;
              half = 2 ^ (d - 1)
          in pack s (if half < r \<or> (r = half \<and> odd t) then t + 1 else t) q)"

text \<open>The signed integer \<open>(-1)^s * m\<close>.\<close>

definition signed :: "bool \<Rightarrow> nat \<Rightarrow> int" where
  "signed s m = (if s then - int m else int m)"

text \<open>
  Addition: exact on the common exponent, then rounded. Infinities of opposite sign
  add to NaN. An exact zero sum is \<open>-0\<close> only when both operands are negative
  (zeros), \<open>+0\<close> otherwise.
\<close>

fun dbl_add :: "double \<Rightarrow> double \<Rightarrow> double" where
  "dbl_add NaN _ = NaN"
| "dbl_add _ NaN = NaN"
| "dbl_add (Inf s) (Inf t) = (if s = t then Inf s else NaN)"
| "dbl_add (Inf s) (Fin _ _ _) = Inf s"
| "dbl_add (Fin _ _ _) (Inf t) = Inf t"
| "dbl_add (Fin s1 m1 e1) (Fin s2 m2 e2) =
     (let e = min e1 e2;
          c = signed s1 m1 * 2 ^ nat (e1 - e) + signed s2 m2 * 2 ^ nat (e2 - e)
      in if c = 0 then Fin (s1 \<and> s2) 0 (- 1074)
         else round_nearest_even (c < 0) (nat \<bar>c\<bar>) e)"

text \<open>Subtraction, \<open>operator-\<close> on doubles, adds the negated operand.\<close>

fun dbl_neg :: "double \<Rightarrow> double" where
  "dbl_neg NaN = NaN"
| "dbl_neg (Inf s) = Inf (\<not> s)"
| "dbl_neg (Fin s m e) = Fin (\<not> s) m e"

definition dbl_sub :: "double \<Rightarrow> double \<Rightarrow> double" where
  "dbl_sub a b = dbl_add a (dbl_neg b)"

text \<open>Multiplication: the exact product, rounded; infinity times zero is NaN.\<close>

fun dbl_mul :: "double \<Rightarrow> double \<Rightarrow> double" where
  "dbl_mul NaN _ = NaN"
| "dbl_mul _ NaN = NaN"
| "dbl_mul (Inf s) (Inf t) = Inf (s \<noteq> t)"
| "dbl_mul (Inf s) (Fin t m e) = (if m = 0 then NaN else Inf (s \<noteq> t))"
| "dbl_mul (Fin s m e) (Inf t) = (if m = 0 then NaN else Inf (s \<noteq> t))"
| "dbl_mul (Fin s1 m1 e1) (Fin s2 m2 e2) = round_nearest_even (s1 \<noteq> s2) (m1 * m2) (e1 + e2)"

text \<open>
  \<open>std::sqrt\<close> on a double is the correctly rounded square root. \<open>isqrt\<close> is the
  integer square root, digit by digit. \<open>dbl_sqrt\<close> scales the significand by an
  even power of two to at least 110 digits, takes the integer root \<open>r\<close> (at least 55
  digits), appends one digit that records whether the root is inexact, and rounds.
  The square root of a negative number is NaN, that of \<open>-0\<close> is \<open>-0\<close>.
\<close>

fun isqrt :: "nat \<Rightarrow> nat" where
  "isqrt n =
     (if n < 2 then n
      else let r = 2 * isqrt (n div 4)
           in if (r + 1) * (r + 1) \<le> n then r + 1 else r)"

declare isqrt.simps [simp del]

fun dbl_sqrt :: "double \<Rightarrow> double" where
  "dbl_sqrt NaN = NaN"
| "dbl_sqrt (Inf s) = (if s then NaN else Inf False)"
| "dbl_sqrt (Fin s m e) =
     (if m = 0 then Fin s 0 (- 1074)
      else if s then NaN
      else
        let k0 = 110 - bitlen m;
            k = (if even (e - int k0) then k0 else k0 + 1);
            M = m * 2 ^ k;
            r = isqrt M
        in round_nearest_even False (2 * r + (if r * r = M then 0 else 1)) ((e - int k) div 2 - 1))"

text \<open>The conversion of an integer to \<open>double\<close> (exact below \<open>2^53\<close>).\<close>

definition dbl_of_int :: "int \<Rightarrow> double" where
  "dbl_of_int i = round_nearest_even (i < 0) (nat \<bar>i\<bar>) 0"

text \<open>Classification, and the comparisons \<open><=\<close> and \<open>==\<close>: both are false on a NaN.\<close>

fun is_nan :: "double \<Rightarrow> bool" where
  "is_nan NaN = True"
| "is_nan (Inf _) = False"
| "is_nan (Fin _ _ _) = False"

fun is_finite :: "double \<Rightarrow> bool" where
  "is_finite NaN = False"
| "is_finite (Inf _) = False"
| "is_finite (Fin _ _ _) = True"

fun dbl_le :: "double \<Rightarrow> double \<Rightarrow> bool" where
  "dbl_le NaN _ = False"
| "dbl_le _ NaN = False"
| "dbl_le (Inf s) (Inf t) = (s \<or> \<not> t)"
| "dbl_le (Inf s) (Fin _ _ _) = s"
| "dbl_le (Fin _ _ _) (Inf t) = (\<not> t)"
| "dbl_le (Fin s1 m1 e1) (Fin s2 m2 e2) =
     (let e = min e1 e2
      in signed s1 m1 * 2 ^ nat (e1 - e) \<le> signed s2 m2 * 2 ^ nat (e2 - e))"

fun dbl_eq :: "double \<Rightarrow> double \<Rightarrow> bool" where
  "dbl_eq NaN _ = False"
| "dbl_eq _ NaN = False"
| "dbl_eq (Inf s) (Inf t) = (s = t)"
| "dbl_eq (Inf _) (Fin _ _ _) = False"
| "dbl_eq (Fin _ _ _) (Inf _) = False"
| "dbl_eq (Fin s1 m1 e1) (Fin s2 m2 e2) =
     (let e = min e1 e2
      in signed s1 m1 * 2 ^ nat (e1 - e) = signed s2 m2 * 2 ^ nat (e2 - e))"

text \<open>
  The real number a finite double stands for; \<open>pow2 e\<close> is \<open>2^e\<close> for an integer
  \<open>e\<close>.
\<close>

definition pow2 :: "int \<Rightarrow> real" where
  "pow2 e = (if 0 \<le> e then 2 ^ nat e else 1 / 2 ^ nat (- e))"

fun valof :: "double \<Rightarrow> real option" where
  "valof NaN = None"
| "valof (Inf _) = None"
| "valof (Fin s m e) = Some (of_int (signed s m) * pow2 e)"

text \<open>
  \<open>within_half_ulp d r\<close>: the double \<open>d\<close> is zero and \<open>r = 0\<close>, or \<open>d\<close> is a normal
  number (a significand of 53 digits) and the real number \<open>r\<close> is at most half a unit
  in the last place of \<open>d\<close> away from it: \<open>d\<close> is \<open>r\<close> rounded to nearest.
\<close>

definition within_half_ulp :: "double \<Rightarrow> real \<Rightarrow> bool" where
  "within_half_ulp d r =
     (case d of
        Fin s m e \<Rightarrow>
          (m = 0 \<and> r = 0 \<or> 2 ^ 52 \<le> m \<and> m < 2 ^ 53) \<and>
          \<bar>of_int (signed s m) * pow2 e - r\<bar> \<le> pow2 e / 2
      | _ \<Rightarrow> False)"

text \<open>\<open>Point<double>\<close>: the four operations of \<open>distanceFrom\<close> on doubles.\<close>

definition double_ops :: "(double, double, double) arith" where
  "double_ops = \<lparr>op_minus = dbl_sub, op_times = dbl_mul, op_plus = dbl_add, std_sqrt = dbl_sqrt\<rparr>"

subsection \<open>\<open>int\<close>\<close>

text \<open>
  \<open>Point<int>\<close>: an \<open>int\<close> is taken to be 32 bits wide; a coordinate is a 32-bit
  two's complement integer, read by \<open>sint\<close>.
  Overflow in signed arithmetic is undefined behaviour in C++: an arithmetic
  expression has the mathematical result when it fits in \<open>int\<close> and is \<open>None\<close>
  otherwise, and an operation on \<open>None\<close> is \<open>None\<close>. \<open>std::sqrt\<close> on an \<open>int\<close>
  converts it to \<open>double\<close> and takes the root there.
\<close>

type_synonym cpp_int = "32 word"

definition int_result :: "int \<Rightarrow> int option" where
  "int_result v = (if - (2 ^ 31) \<le> v \<and> v \<le> 2 ^ 31 - 1 then Some v else None)"

definition int_minus :: "cpp_int \<Rightarrow> cpp_int \<Rightarrow> int option" where
  "int_minus a b = int_result (sint a - sint b)"

fun int_times :: "int option \<Rightarrow> int option \<Rightarrow> int option" where
  "int_times (Some u) (Some v) = int_result (u * v)"
| "int_times _ _ = None"

fun int_plus :: "int option \<Rightarrow> int option \<Rightarrow> int option" where
  "int_plus (Some u) (Some v) = int_result (u + v)"
| "int_plus _ _ = None"

fun int_sqrt :: "int option \<Rightarrow> double option" where
  "int_sqrt (Some v) = Some (dbl_sqrt (dbl_of_int v))"
| "int_sqrt None = None"

definition int_ops :: "(cpp_int, int option, double option) arith" where
  "int_ops = \<lparr>op_minus = int_minus, op_times = int_times, op_plus = int_plus, std_sqrt = int_sqrt\<rparr>"

subsection \<open>Stores for the examples\<close>

text \<open>
  The store in which every address holds the point \<open>p\<close>; the examples construct
  their points in it with the constructor.
\<close>

definition all_at :: "'a Point \<Rightarrow> 'a heap" where
  "all_at p = (\<lambda>_. p)"

text \<open>A double that is not a NaN and has its sign bit clear.\<close>

fun sign_clear :: "double \<Rightarrow> bool" where
  "sign_clear NaN = False"
| "sign_clear (Inf s) = (\<not> s)"
| "sign_clear (Fin s _ _) = (\<not> s)"

text \<open>
  The significand that \<open>round_nearest_even\<close> keeps when it drops the last \<open>d\<close>
  digits of \<open>t\<close>.
\<close>

definition round_digits :: "nat \<Rightarrow> nat \<Rightarrow> nat" where
  "round_digits t d =
     (if 2 ^ (d - 1) < t mod 2 ^ d \<or> (t mod 2 ^ d = 2 ^ (d - 1) \<and> odd (t div 2 ^ d))
      then t div 2 ^ d + 1 else t div 2 ^ d)"

text \<open>
  A double that holds the integer \<open>a\<close> exactly, in any representation
  \<open>m * 2^(-k)\<close>.
\<close>

definition represents_int :: "double \<Rightarrow> int \<Rightarrow> bool" where
  "represents_int d a = (\<exists>s m k. d = Fin s m (- int k) \<and> signed s m = a * 2 ^ k)"

section \<open>Evaluation and basic facts of the arithmetic\<close>

text \<open>
  \<open>isqrt n\<close> is the integer square root of \<open>n\<close>: the one \<open>r\<close> with
  \<open>r^2 \<le> n < (r+1)^2\<close>.
\<close>

lemma isqrt_bounds: "isqrt n * isqrt n \<le> n \<and> n < (isqrt n + 1) * (isqrt n + 1)"
proof (induction n rule: isqrt.induct)
  case (1 n)
  show ?case
  proof (cases "n < 2")
    case True
    then show ?thesis by (auto simp: isqrt.simps [of n])
  next
    case False
    define s where "s = isqrt (n div 4)"
    from 1 [OF False] have lo: "s * s \<le> n div 4" and hi: "n div 4 < (s + 1) * (s + 1)"
      by (simp_all add: s_def)
    have a: "(2 * s) * (2 * s) \<le> n"
    proof -
      have "(2 * s) * (2 * s) = 4 * (s * s)" by simp
      also have "\<dots> \<le> 4 * (n div 4)" using lo by simp
      also have "\<dots> \<le> n" by simp
      finally show ?thesis .
    qed
    have b: "n < (2 * s + 2) * (2 * s + 2)"
    proof -
      have "n div 4 + 1 \<le> (s + 1) * (s + 1)" using hi by simp
      then have "4 * (n div 4 + 1) \<le> 4 * ((s + 1) * (s + 1))" by simp
      moreover have "n < 4 * (n div 4 + 1)" by simp
      moreover have "4 * ((s + 1) * (s + 1)) = (2 * s + 2) * (2 * s + 2)" by (simp add: algebra_simps)
      ultimately show ?thesis by linarith
    qed
    show ?thesis
    proof (cases "(2 * s + 1) * (2 * s + 1) \<le> n")
      case True
      then have "isqrt n = 2 * s + 1"
        using False by (simp add: isqrt.simps [of n] s_def Let_def)
      then show ?thesis using True b by (simp add: algebra_simps)
    next
      case F2: False
      then have "isqrt n = 2 * s"
        using False by (simp add: isqrt.simps [of n] s_def Let_def)
      then show ?thesis using F2 a by simp
    qed
  qed
qed

lemma isqrt_unique:
  assumes "r * r \<le> n" and "n < (r + 1) * (r + 1)"
  shows "isqrt n = r"
proof -
  let ?i = "isqrt n"
  from isqrt_bounds [of n] have lo: "?i * ?i \<le> n" and hi: "n < (?i + 1) * (?i + 1)"
    by simp_all
  have "\<not> ?i < r"
  proof
    assume "?i < r"
    then have "?i + 1 \<le> r" by arith
    then have "(?i + 1) * (?i + 1) \<le> r * r" by (rule mult_le_mono [OF _ \<open>?i + 1 \<le> r\<close>])
    with hi assms(1) show False by simp
  qed
  moreover have "\<not> r < ?i"
  proof
    assume "r < ?i"
    then have "r + 1 \<le> ?i" by arith
    then have "(r + 1) * (r + 1) \<le> ?i * ?i" by (rule mult_le_mono [OF _ \<open>r + 1 \<le> ?i\<close>])
    with lo assms(2) show False by simp
  qed
  ultimately show ?thesis by simp
qed

lemma bitlen_unique:
  assumes "2 ^ k \<le> n" and "n < 2 ^ Suc k"
  shows "bitlen n = Suc k"
  using assms
proof (induction k arbitrary: n)
  case 0
  then have "n = 1" by simp
  then show ?case by (simp add: bitlen.simps [of "Suc 0"] bitlen.simps [of 0])
next
  case (Suc k)
  have "2 ^ k \<le> n div 2" using Suc.prems(1) by simp
  moreover have "n div 2 < 2 ^ Suc k" using Suc.prems(2) by simp
  ultimately have "bitlen (n div 2) = Suc k" by (rule Suc.IH)
  moreover have "(0::nat) < 2 ^ Suc k" by simp
  with Suc.prems(1) have "n \<noteq> 0" by linarith
  ultimately show ?case by (simp add: bitlen.simps [of n])
qed

text \<open>Evaluation on numerals.\<close>

lemma bitlen_numeral [simp]:
  "bitlen (numeral (Num.Bit0 n)) = Suc (bitlen (numeral n))"
  "bitlen (numeral (Num.Bit1 n)) = Suc (bitlen (numeral n))"
  "bitlen (numeral Num.One) = 1"
  "bitlen (Suc 0) = 1"
  "bitlen 0 = 0"
proof -
  show "bitlen (numeral (Num.Bit0 n)) = Suc (bitlen (numeral n))"
    by (subst bitlen.simps) (simp add: numeral_Bit0_div_2 del: bitlen.simps)
  show "bitlen (numeral (Num.Bit1 n)) = Suc (bitlen (numeral n))"
    by (subst bitlen.simps) (simp add: numeral_Bit1_div_2 del: bitlen.simps)
  show "bitlen (numeral Num.One) = 1"
    by (simp add: bitlen.simps [of "Suc 0"] bitlen.simps [of 0])
  show "bitlen (Suc 0) = 1"
    by (simp add: bitlen.simps [of "Suc 0"] bitlen.simps [of 0])
  show "bitlen 0 = 0"
    by (simp add: bitlen.simps [of 0])
qed

lemmas isqrt_numeral [simp] = isqrt.simps [of "numeral n"] for n

lemma isqrt_small [simp]: "isqrt 0 = 0" "isqrt (Suc 0) = Suc 0"
  by (simp_all add: isqrt.simps [of 0] isqrt.simps [of "Suc 0"])

text \<open>The binary length bounds a number by powers of two.\<close>

lemma bitlen_bounds:
  assumes "0 < n"
  shows "2 ^ (bitlen n - 1) \<le> n \<and> n < 2 ^ bitlen n"
  using assms
proof (induction n rule: bitlen.induct)
  case (1 n)
  show ?case
  proof (cases "n div 2 = 0")
    case True
    with 1(2) have "n = 1" by (simp add: div_eq_0_iff) 
    then show ?thesis by simp
  next
    case False
    then have pos: "0 < n div 2" by simp
    from 1(2) have n0: "n \<noteq> 0" by simp
    from 1(1) [OF n0 pos] have lo: "2 ^ (bitlen (n div 2) - 1) \<le> n div 2"
      and hi: "n div 2 < 2 ^ bitlen (n div 2)" by simp_all
    have b: "bitlen n = Suc (bitlen (n div 2))"
      using n0 by (simp add: bitlen.simps [of n])
    have bpos: "0 < bitlen (n div 2)"
      using pos by (simp add: bitlen.simps [of "n div 2"])
    then have s: "Suc (bitlen (n div 2) - 1) = bitlen (n div 2)" by simp
    have "2 * 2 ^ (bitlen (n div 2) - 1) \<le> 2 * (n div 2)" using lo by simp
    also have "\<dots> \<le> n" by simp
    finally have "2 ^ (bitlen (n div 2)) \<le> n"
      using s by (metis power_Suc)
    moreover have "n < 2 * 2 ^ bitlen (n div 2)" using hi by linarith
    ultimately show ?thesis by (simp add: b)
  qed
qed

lemma bitlen_mult_pow2:
  assumes "0 < m"
  shows "bitlen (m * 2 ^ k) = bitlen m + k"
proof -
  from bitlen_bounds [OF assms] have lo: "2 ^ (bitlen m - 1) \<le> m" and hi: "m < 2 ^ bitlen m"
    by simp_all
  have bpos: "0 < bitlen m" using assms by (simp add: bitlen.simps [of m])
  then obtain j where j: "bitlen m = Suc j" by (cases "bitlen m") simp_all
  have "2 ^ (j + k) \<le> m * 2 ^ k" using lo by (simp add: j power_add)
  moreover have "m * 2 ^ k < 2 ^ Suc (j + k)" using hi by (simp add: j power_add)
  ultimately have "bitlen (m * 2 ^ k) = Suc (j + k)" by (rule bitlen_unique)
  then show ?thesis by (simp add: j)
qed

lemma bitlen_le: "0 < n \<Longrightarrow> n < 2 ^ k \<Longrightarrow> bitlen n \<le> k"
proof (rule ccontr)
  assume n: "0 < n" "n < 2 ^ k" and "\<not> bitlen n \<le> k"
  then have "k \<le> bitlen n - 1" by simp
  then have "(2::nat) ^ k \<le> 2 ^ (bitlen n - 1)" by (rule power_increasing) simp
  with bitlen_bounds [OF n(1)] n(2) show False by linarith
qed

lemma bitlen_ge: "2 ^ k \<le> n \<Longrightarrow> k < bitlen n"
proof (rule ccontr)
  assume n: "2 ^ k \<le> n" and "\<not> k < bitlen n"
  then have "bitlen n \<le> k" by simp
  then have "(2::nat) ^ bitlen n \<le> 2 ^ k" by (rule power_increasing) simp
  moreover have "0 < n" using n(1) by (cases n) simp_all
  ultimately show False using bitlen_bounds [of n] n(1) by linarith
qed

text \<open>Powers of two with an integer exponent.\<close>

lemma pow2_powi: "pow2 e = 2 powi e"
  by (simp add: pow2_def power_int_def field_simps)

lemma pow2_add: "pow2 (a + b) = pow2 a * pow2 b"
  by (simp add: pow2_powi power_int_add)

lemma pow2_pos: "0 < pow2 e"
  by (simp add: pow2_def)

lemma pow2_nat: "pow2 (int n) = 2 ^ n"
  by (simp add: pow2_def)

lemma pow2_mono: "a \<le> b \<Longrightarrow> pow2 a \<le> pow2 b"
  by (simp add: pow2_powi power_int_increasing)

lemma pow2_Suc: "pow2 (q + 1) = 2 * pow2 q"
  using pow2_add [of q 1] by (simp add: pow2_def [of 1])

text \<open>
  Rounding: dropping \<open>d\<close> digits moves the value by at most half a unit of the last
  digit kept, and by less than that when the value is odd and two digits or more are
  dropped. In the normal range \<open>round_nearest_even\<close> returns the significand
  \<open>round_digits\<close> keeps, with 53 digits.
\<close>

lemma round_digits_cases:
  assumes "1 \<le> d"
  obtains a r H where "t = a * (2 * H) + r" "r < 2 * H" "H = 2 ^ (d - 1)"
    "2 ^ d = 2 * H" "H < r \<or> (r = H \<and> odd a)" "round_digits t d = a + 1" "r = t mod 2 ^ d"
  | a r H where "t = a * (2 * H) + r" "r < 2 * H" "H = 2 ^ (d - 1)"
    "2 ^ d = 2 * H" "r \<le> H" "round_digits t d = a" "r = t mod 2 ^ d"
proof -
  define a where "a = t div 2 ^ d"
  define r where "r = t mod 2 ^ d"
  define H where "H = (2::nat) ^ (d - 1)"
  have two: "(2::nat) ^ d = 2 * H"
    using assms by (cases d) (simp_all add: H_def)
  have t: "t = a * (2 * H) + r"
    unfolding two [symmetric] by (simp only: a_def r_def div_mult_mod_eq)
  have r: "r < 2 * H" unfolding two [symmetric] by (simp add: r_def)
  show ?thesis
  proof (cases "H < r \<or> (r = H \<and> odd a)")
    case True
    then have "round_digits t d = a + 1"
      by (simp add: round_digits_def a_def r_def H_def)
    with t r two True show ?thesis by (rule that(1) [OF _ _ H_def _ _ _ r_def])
  next
    case False
    then have "round_digits t d = a"
      by (simp add: round_digits_def a_def r_def H_def)
    moreover from False have "r \<le> H" by auto
    ultimately show ?thesis using t r two by (intro that(2) [OF _ _ H_def _ _ _ r_def])
  qed
qed

lemma round_digits_up:
  assumes "t = a * (2 * H) + r" "2 ^ d = 2 * H" "round_digits t d = a + 1"
  shows "int (round_digits t d * 2 ^ d) - int t = 2 * int H - int r"
proof -
  have "int (round_digits t d * 2 ^ d) = int ((a + 1) * (2 * H))"
    by (simp only: assms(2,3))
  moreover have "int t = int (a * (2 * H) + r)"
    by (rule arg_cong [OF assms(1)])
  ultimately show ?thesis by (simp add: algebra_simps)
qed

lemma round_digits_down:
  assumes "t = a * (2 * H) + r" "2 ^ d = 2 * H" "round_digits t d = a"
  shows "int (round_digits t d * 2 ^ d) - int t = - int r"
proof -
  have "int (round_digits t d * 2 ^ d) = int (a * (2 * H))"
    by (simp only: assms(2,3))
  moreover have "int t = int (a * (2 * H) + r)"
    by (rule arg_cong [OF assms(1)])
  ultimately show ?thesis by (simp add: algebra_simps)
qed

lemma round_digits_error:
  assumes "1 \<le> d"
  shows "\<bar>int (round_digits t d * 2 ^ d) - int t\<bar> \<le> 2 ^ (d - 1)"
  using round_digits_cases [OF assms, where t = t]
proof cases
  case (1 a r H)
  have H: "(2::int) ^ (d - 1) = int H" by (simp add: 1(3))
  from 1(5) have "H \<le> r" by auto
  with 1(2) show ?thesis
    unfolding round_digits_up [OF 1(1) 1(4) 1(6)] H by linarith
next
  case (2 a r H)
  have H: "(2::int) ^ (d - 1) = int H" by (simp add: 2(3))
  from 2(5) show ?thesis
    unfolding round_digits_down [OF 2(1) 2(4) 2(6)] H by linarith
qed

lemma round_digits_error_odd:
  assumes "2 \<le> d" and "odd t"
  shows "\<bar>int (round_digits t d * 2 ^ d) - int t\<bar> \<le> 2 ^ (d - 1) - 1"
proof -
  have d1: "1 \<le> d" using assms(1) by simp
  have "even ((2::nat) ^ d)" using assms by simp
  then have odd_r: "odd (t mod 2 ^ d)" using assms(2)
    by (metis dvd_mod_iff)
  have even_H: "even ((2::nat) ^ (d - 1))" using assms by simp
  from round_digits_cases [OF d1, where t = t] show ?thesis
  proof cases
    case (1 a r H)
    have H: "(2::int) ^ (d - 1) = int H" by (simp add: 1(3))
    from odd_r even_H 1(3,7) have "r \<noteq> H" by auto
    with 1(5) have "H < r" by auto
    with 1(2) show ?thesis
      unfolding round_digits_up [OF 1(1) 1(4) 1(6)] H by linarith
  next
    case (2 a r H)
    have H: "(2::int) ^ (d - 1) = int H" by (simp add: 2(3))
    from odd_r even_H 2(3,7) have "r \<noteq> H" by auto
    with 2(5) have "r < H" by auto
    then show ?thesis
      unfolding round_digits_down [OF 2(1) 2(4) 2(6)] H by linarith
  qed
qed

lemma round_digits_le:
  assumes "t < 2 ^ (d + k)"
  shows "round_digits t d \<le> 2 ^ k"
proof -
  have "t div 2 ^ d < 2 ^ k"
    using assms by (simp add: less_mult_imp_div_less power_add mult.commute)
  then show ?thesis by (simp add: round_digits_def)
qed

lemma round_digits_ge:
  assumes "2 ^ (d + k) \<le> t"
  shows "2 ^ k \<le> round_digits t d"
proof -
  have "2 ^ k * 2 ^ d \<le> t" using assms by (simp add: power_add mult.commute)
  then have "2 ^ k \<le> t div 2 ^ d" by (simp add: less_eq_div_iff_mult_less_eq)
  then show ?thesis by (simp add: round_digits_def)
qed

lemma round_nearest_even_value:
  assumes m: "0 < m" and L: "53 < bitlen m"
    and lo: "- 1074 \<le> e + int (bitlen m) - 53" and hi: "e + int (bitlen m) - 53 < 971"
  obtains m' q' where "round_nearest_even s m e = Fin s m' q'"
    "real m' * pow2 q' = real (round_digits m (bitlen m - 53)) * pow2 (e + int (bitlen m) - 53)"
    "e + int (bitlen m) - 53 \<le> q'" "2 ^ 52 \<le> m'" "m' < 2 ^ 53"
proof -
  define q where "q = e + int (bitlen m) - 53"
  define R where "R = round_digits m (bitlen m - 53)"
  have q: "max (e + int (bitlen m) - 53) (- 1074) = q" using lo by (simp add: q_def)
  have qe: "\<not> q \<le> e" using L by (simp add: q_def)
  have d: "nat (q - e) = bitlen m - 53" using L by (simp add: q_def)
  have rne: "round_nearest_even s m e = pack s R q"
    using m qe by (simp add: round_nearest_even_def q Let_def d R_def round_digits_def)
  have L1: "(bitlen m - 53) + 53 = bitlen m" and L2: "(bitlen m - 53) + 52 = bitlen m - 1"
    using L by simp_all
  have "m < 2 ^ ((bitlen m - 53) + 53)"
    unfolding L1 using bitlen_bounds [OF m] by (rule conjunct2)
  then have R53: "R \<le> 2 ^ 53" unfolding R_def by (rule round_digits_le)
  have "2 ^ ((bitlen m - 53) + 52) \<le> m"
    unfolding L2 using bitlen_bounds [OF m] by (rule conjunct1)
  then have R52: "2 ^ 52 \<le> R" unfolding R_def by (rule round_digits_ge)
  show ?thesis
  proof (cases "R = 2 ^ 53")
    case True
    show ?thesis
    proof (rule that)
      show "round_nearest_even s m e = Fin s (2 ^ 52) (q + 1)"
        using True hi by (simp add: rne pack_def q_def)
      show "real (2 ^ 52) * pow2 (q + 1) =
          real (round_digits m (bitlen m - 53)) * pow2 (e + int (bitlen m) - 53)"
        unfolding R_def [symmetric] q_def [symmetric] True pow2_Suc by simp
      show "e + int (bitlen m) - 53 \<le> q + 1" by (simp add: q_def)
      show "(2::nat) ^ 52 \<le> 2 ^ 52" by (rule order_refl)
      show "(2::nat) ^ 52 < 2 ^ 53" by simp
    qed
  next
    case False
    show ?thesis
    proof (rule that)
      show "round_nearest_even s m e = Fin s R q"
        using False hi by (simp add: rne pack_def q_def)
      show "real R * pow2 q =
          real (round_digits m (bitlen m - 53)) * pow2 (e + int (bitlen m) - 53)"
        by (simp only: R_def q_def)
      show "e + int (bitlen m) - 53 \<le> q" by (simp add: q_def)
      show "2 ^ 52 \<le> R" by (rule R52)
      show "R < 2 ^ 53" using False R53 by simp
    qed
  qed
qed

text \<open>
  The square root: \<open>dbl_sqrt\<close> of a converted positive integer is a normal double
  within half a unit in the last place of the real square root.
\<close>

lemma isqrt_range:
  assumes "2 ^ 109 \<le> M" "M < 2 ^ 111"
  shows "2 ^ 54 \<le> isqrt M \<and> isqrt M < 2 ^ 56"
proof -
  let ?r = "isqrt M"
  from isqrt_bounds [of M] have lo: "?r * ?r \<le> M" and hi: "M < (?r + 1) * (?r + 1)"
    by simp_all
  have "\<not> ?r < 2 ^ 54"
  proof
    assume "?r < 2 ^ 54"
    then have le: "?r + 1 \<le> 2 ^ 54" by simp
    have "(?r + 1) * (?r + 1) \<le> 2 ^ 54 * 2 ^ 54" by (rule mult_le_mono [OF le le])
    also have "\<dots> \<le> (2::nat) ^ 109" by simp
    finally show False using hi assms(1) by linarith
  qed
  moreover have "\<not> 2 ^ 56 \<le> ?r"
  proof
    assume le: "2 ^ 56 \<le> ?r"
    have "(2::nat) ^ 111 \<le> 2 ^ 56 * 2 ^ 56" by simp
    also have "\<dots> \<le> ?r * ?r" by (rule mult_le_mono [OF le le])
    finally show False using lo assms(2) by linarith
  qed
  ultimately show ?thesis by simp
qed

lemma isqrt_real:
  "real (isqrt M) \<le> sqrt (real M) \<and> sqrt (real M) < real (isqrt M) + 1 \<and>
   (isqrt M * isqrt M = M \<longrightarrow> sqrt (real M) = real (isqrt M)) \<and>
   (isqrt M * isqrt M \<noteq> M \<longrightarrow> real (isqrt M) < sqrt (real M))"
proof -
  let ?r = "isqrt M"
  from isqrt_bounds [of M] have lo: "?r * ?r \<le> M" and hi: "M < (?r + 1) * (?r + 1)"
    by simp_all
  have "real (?r * ?r) \<le> real M" using lo by (simp only: of_nat_le_iff)
  then have "(real ?r)\<^sup>2 \<le> real M" by (simp add: power2_eq_square)
  then have 1: "real ?r \<le> sqrt (real M)" by (rule real_le_rsqrt)
  have "real M < real ((?r + 1) * (?r + 1))" using hi by (simp only: of_nat_less_iff)
  then have "real M < (real ?r + 1)\<^sup>2" by (simp add: power2_eq_square algebra_simps)
  then have 2: "sqrt (real M) < real ?r + 1" by (intro real_less_lsqrt) simp_all
  have 3: "sqrt (real M) = real ?r" if "?r * ?r = M"
  proof -
    have "real (?r * ?r) = real M" using that by (simp only:)
    then have eq: "real M = (real ?r)\<^sup>2" by (simp add: power2_eq_square)
    show ?thesis unfolding eq by simp
  qed
  have 4: "real ?r < sqrt (real M)" if "?r * ?r \<noteq> M"
  proof -
    from that lo have "?r * ?r < M" by simp
    then have "real (?r * ?r) < real M" by (simp only: of_nat_less_iff)
    then have "(real ?r)\<^sup>2 < real M" by (simp add: power2_eq_square)
    then show ?thesis by (rule real_less_rsqrt)
  qed
  from 1 2 3 4 show ?thesis by blast
qed

lemma sqrt_rounding:
  assumes M: "2 ^ 109 \<le> M" "M < 2 ^ 111" and E: "- 1000 \<le> E" "E \<le> 900"
  obtains m q where
    "round_nearest_even False (2 * isqrt M + (if isqrt M * isqrt M = M then 0 else 1)) E = Fin False m q"
    "\<bar>real m * pow2 q - 2 * sqrt (real M) * pow2 E\<bar> \<le> pow2 q / 2"
    "2 ^ 52 \<le> m" "m < 2 ^ 53"
proof -
  define r where "r = isqrt M"
  define t where "t = 2 * r + (if r * r = M then 0 else 1)"
  define d where "d = bitlen t - 53"
  define R where "R = round_digits t d"
  from isqrt_range [OF M] have r: "2 ^ 54 \<le> r" "r < 2 ^ 56" by (simp_all add: r_def)
  have t_lo: "2 ^ 55 \<le> t" using r(1) by (simp add: t_def)
  have t_hi: "t < 2 ^ 57" using r(2) by (simp add: t_def)
  have t_pos: "0 < t" using t_lo by simp
  have L_lo: "55 < bitlen t" using t_lo by (rule bitlen_ge)
  have L_hi: "bitlen t \<le> 57" using t_pos t_hi by (rule bitlen_le)
  have d2: "2 \<le> d" and d1: "1 \<le> d" using L_lo by (simp_all add: d_def)
  have L53: "53 < bitlen t" using L_lo by simp
  have q_lo: "- 1074 \<le> E + int (bitlen t) - 53" using E(1) L_lo by simp
  have q_hi: "E + int (bitlen t) - 53 < 971" using E(2) L_hi by simp
  from round_nearest_even_value [OF t_pos L53 q_lo q_hi, of False] obtain m q where
    res: "round_nearest_even False t E = Fin False m q"
    and val: "real m * pow2 q = real R * pow2 (E + int (bitlen t) - 53)"
    and qq: "E + int (bitlen t) - 53 \<le> q" and norm: "2 ^ 52 \<le> m" "m < 2 ^ 53"
    unfolding R_def d_def by blast
  have Ed: "E + int (bitlen t) - 53 = E + int d" using L53 by (simp add: d_def)
  have err: "\<bar>real (R * 2 ^ d) - 2 * sqrt (real M)\<bar> \<le> 2 ^ (d - 1)"
  proof (cases "r * r = M")
    case True
    then have "sqrt (real M) = real r" using isqrt_real [of M] by (simp add: r_def)
    moreover have "t = 2 * r" using True by (simp add: t_def)
    ultimately have "2 * sqrt (real M) = real t" by simp
    moreover have "\<bar>real_of_int (int (R * 2 ^ d) - int t)\<bar> \<le> real_of_int (2 ^ (d - 1))"
      unfolding R_def using round_digits_error [OF d1, of t] by (simp only: of_int_abs [symmetric] of_int_le_iff)
    ultimately show ?thesis by simp
  next
    case False
    have sq: "real r \<le> sqrt (real M)" "sqrt (real M) < real r + 1"
      using isqrt_real [of M] by (simp_all add: r_def)
    have strict: "real r < sqrt (real M)"
      using isqrt_real [of M] False by (simp add: r_def)
    have t: "t = 2 * r + 1" using False by (simp add: t_def)
    then have "odd t" by simp
    from round_digits_error_odd [OF d2 this]
    have "\<bar>real_of_int (int (R * 2 ^ d) - int t)\<bar> \<le> real_of_int (2 ^ (d - 1) - 1)"
      unfolding R_def by (simp only: of_int_abs [symmetric] of_int_le_iff)
    then have "\<bar>real (R * 2 ^ d) - real t\<bar> \<le> 2 ^ (d - 1) - 1" by simp
    moreover have "\<bar>real t - 2 * sqrt (real M)\<bar> < 1" using strict sq(2) by (simp add: t abs_less_iff)
    ultimately show ?thesis by linarith
  qed
  have scale: "pow2 (E + int d) = 2 ^ d * pow2 E"
    by (simp add: pow2_add pow2_nat mult.commute)
  have two: "(2::real) ^ d = 2 * 2 ^ (d - 1)"
    using d1 by (cases d) simp_all
  have half: "(2::real) ^ (d - 1) * pow2 E = pow2 (E + int d) / 2"
    unfolding scale two by simp
  have "real m * pow2 q - 2 * sqrt (real M) * pow2 E =
      (real (R * 2 ^ d) - 2 * sqrt (real M)) * pow2 E"
    unfolding val Ed scale by (simp add: algebra_simps)
  then have "\<bar>real m * pow2 q - 2 * sqrt (real M) * pow2 E\<bar> =
      \<bar>real (R * 2 ^ d) - 2 * sqrt (real M)\<bar> * \<bar>pow2 E\<bar>"
    by (simp only: abs_mult)
  also have "\<dots> = \<bar>real (R * 2 ^ d) - 2 * sqrt (real M)\<bar> * pow2 E"
    using pow2_pos [of E] by (simp only: abs_of_pos)
  also have "\<dots> \<le> 2 ^ (d - 1) * pow2 E"
    using err pow2_pos [of E] by (simp add: mult_right_mono)
  also have "\<dots> = pow2 (E + int d) / 2" by (rule half)
  also have "\<dots> \<le> pow2 q / 2" using qq unfolding Ed by (simp add: pow2_mono)
  finally have "\<bar>real m * pow2 q - 2 * sqrt (real M) * pow2 E\<bar> \<le> pow2 q / 2" .
  with res show ?thesis using norm unfolding t_def r_def by (intro that)
qed

lemma dbl_of_int_pos:
  assumes "0 < v" "v < 2 ^ 53"
  shows "dbl_of_int v = Fin False (nat v * 2 ^ (53 - bitlen (nat v))) (int (bitlen (nat v)) - 53)"
proof -
  define n where "n = nat v"
  have n: "0 < n" "n < 2 ^ 53" using assms by (simp_all add: n_def nat_less_iff)
  have b: "bitlen n \<le> 53" using n by (rule bitlen_le)
  have "n < 2 ^ bitlen n" using bitlen_bounds [OF n(1)] by simp
  then have "n * 2 ^ (53 - bitlen n) < 2 ^ bitlen n * 2 ^ (53 - bitlen n)" by simp
  also have "\<dots> = 2 ^ 53" using b by (simp add: power_add [symmetric])
  finally have lt: "n * 2 ^ (53 - bitlen n) < 2 ^ 53" .
  have q: "max (int (bitlen n) - 53) (- 1074) = int (bitlen n) - 53" by simp
  have "round_nearest_even False n 0 =
      pack False (n * 2 ^ (53 - bitlen n)) (int (bitlen n) - 53)"
    using n(1) b by (simp add: round_nearest_even_def q Let_def nat_diff_distrib')
  also have "\<dots> = Fin False (n * 2 ^ (53 - bitlen n)) (int (bitlen n) - 53)"
    using lt b by (simp add: pack_def)
  finally show ?thesis
    using assms(1) by (simp add: dbl_of_int_def n_def)
qed

lemma sqrt_pow2_even: "sqrt (2 ^ (2 * i)) = 2 ^ i"
proof -
  have "(2::real) ^ (2 * i) = (2 ^ i)\<^sup>2" by (simp add: power_mult power2_eq_square power_mult_distrib [symmetric] mult.commute)
  then show ?thesis by simp
qed

lemma dbl_sqrt_of_int_pos:
  assumes "0 < v" "v < 2 ^ 53"
  obtains m q where "dbl_sqrt (dbl_of_int v) = Fin False m q"
    "\<bar>real m * pow2 q - sqrt (real_of_int v)\<bar> \<le> pow2 q / 2"
    "2 ^ 52 \<le> m" "m < 2 ^ 53"
proof -
  define n where "n = nat v"
  define b where "b = bitlen n"
  define m0 where "m0 = n * 2 ^ (53 - b)"
  define e0 where "e0 = int b - 53"
  define k where "k = (if even (e0 - 57) then 57 else (58::nat))"
  define M where "M = m0 * 2 ^ k"
  define E where "E = (e0 - int k) div 2 - 1"
  have n: "0 < n" "n < 2 ^ 53" using assms by (simp_all add: n_def nat_less_iff)
  have b: "b \<le> 53" "0 < b" using n bitlen_le [of n 53] bitlen_ge [of 0 n]
    by (simp_all add: b_def)
  have m0_pos: "0 < m0" using n(1) by (simp add: m0_def)
  have len0: "bitlen m0 = 53"
    unfolding m0_def using bitlen_mult_pow2 [OF n(1), of "53 - b"] b by (simp add: b_def)
  have of_int: "dbl_of_int v = Fin False m0 e0"
    using dbl_of_int_pos [OF assms] by (simp add: m0_def e0_def b_def n_def)
  have k: "k = 57 \<or> k = 58" by (simp add: k_def)
  have ev: "even (e0 - int k)" by (auto simp add: k_def)
  have lenM: "bitlen M = 53 + k"
    unfolding M_def using bitlen_mult_pow2 [OF m0_pos, of k] len0 by simp
  have M_pos: "0 < M" using m0_pos by (simp add: M_def)
  from bitlen_bounds [OF M_pos] have "2 ^ (52 + k) \<le> M" "M < 2 ^ (53 + k)"
    by (simp_all add: lenM)
  moreover have "(2::nat) ^ 109 \<le> 2 ^ (52 + k)" using k by (intro power_increasing) auto
  moreover have "(2::nat) ^ (53 + k) \<le> 2 ^ 111" using k by (intro power_increasing) auto
  ultimately have M: "2 ^ 109 \<le> M" "M < 2 ^ 111" by linarith+
  have E: "- 1000 \<le> E" "E \<le> 900" using b k by (auto simp add: E_def e0_def)
  have sq: "dbl_sqrt (dbl_of_int v) =
      round_nearest_even False (2 * isqrt M + (if isqrt M * isqrt M = M then 0 else 1)) E"
  proof -
    have k0: "110 - bitlen m0 = 57" by (simp add: len0)
    have kk: "(if even (e0 - int 57) then 57 else 57 + 1) = k" by (simp add: k_def)
    have m0: "(m0 = 0) = False" using m0_pos by simp
    show ?thesis
      unfolding of_int dbl_sqrt.simps Let_def k0 kk M_def [symmetric] E_def [symmetric] m0
      by (simp only: if_False)
  qed
  from sqrt_rounding [OF M E] obtain m q where
    res: "round_nearest_even False (2 * isqrt M + (if isqrt M * isqrt M = M then 0 else 1)) E =
        Fin False m q"
    and err: "\<bar>real m * pow2 q - 2 * sqrt (real M) * pow2 E\<bar> \<le> pow2 q / 2"
    and norm: "2 ^ 52 \<le> m" "m < 2 ^ 53"
    by blast
  have root: "2 * sqrt (real M) * pow2 E = sqrt (real_of_int v)"
  proof -
    define j where "j = 53 - b + k"
    have ej: "e0 - int k = - int j" using b by (simp add: j_def e0_def)
    with ev have "even (int j)" by simp
    then obtain i where i: "j = 2 * i" by (auto elim: evenE)
    from ej have "E = - int i - 1" by (simp add: E_def i)
    then have "\<not> 0 \<le> E" "nat (- E) = Suc i" by simp_all
    then have pE: "2 * pow2 E = 1 / 2 ^ i" by (simp add: pow2_def)
    have "M = n * 2 ^ (53 - b + k)"
      by (simp add: M_def m0_def power_add)
    then have "M = n * 2 ^ (2 * i)"
      by (simp only: j_def [symmetric] i)
    then have "real M = real n * 2 ^ (2 * i)"
      by simp
    then have "sqrt (real M) = sqrt (real n) * 2 ^ i"
      by (simp add: real_sqrt_mult sqrt_pow2_even)
    then have "2 * sqrt (real M) * pow2 E = sqrt (real n) * 2 ^ i * (2 * pow2 E)" by simp
    also have "\<dots> = sqrt (real n)" unfolding pE by simp
    finally show ?thesis using assms(1) by (simp add: n_def)
  qed
  from res err norm show ?thesis unfolding root sq [symmetric] by (rule that)
qed

text \<open>
  Signs: rounding keeps the sign, a square is never negative, and the difference
  \<open>b - a\<close> has the square of \<open>a - b\<close>.
\<close>

lemma pack_neg: "pack (\<not> s) t q = dbl_neg (pack s t q)"
  by (simp add: pack_def)

lemma round_nearest_even_neg:
  "round_nearest_even (\<not> s) m e = dbl_neg (round_nearest_even s m e)"
  by (simp add: round_nearest_even_def Let_def pack_neg)

lemma sign_clear_pack: "sign_clear (pack False t q)"
  by (simp add: pack_def)

lemma sign_clear_round: "sign_clear (round_nearest_even False m e)"
  by (simp add: round_nearest_even_def Let_def sign_clear_pack)

lemma not_nan_pack: "\<not> is_nan (pack s t q)"
  by (simp add: pack_def)

lemma not_nan_round: "\<not> is_nan (round_nearest_even s m e)"
  by (simp add: round_nearest_even_def Let_def not_nan_pack)

lemma signed_not: "signed (\<not> s) m = - signed s m"
  by (simp add: signed_def)

lemma dbl_mul_neg_neg: "dbl_mul (dbl_neg d) (dbl_neg d) = dbl_mul d d"
  by (cases d) auto

lemma dbl_mul_zero_zero: "dbl_mul (Fin s 0 e) (Fin s 0 e) = dbl_zero"
  by (simp add: round_nearest_even_def dbl_zero_def)

lemma square_difference_sym:
  "dbl_mul (dbl_sub a b) (dbl_sub a b) = dbl_mul (dbl_sub b a) (dbl_sub b a)"
proof (cases a)
  case NaN
  then show ?thesis by (cases b) (simp_all add: dbl_sub_def)
next
  case (Inf s)
  then show ?thesis by (cases b) (auto simp: dbl_sub_def)
next
  case a: (Fin s1 m1 e1)
  show ?thesis
  proof (cases b)
    case NaN
    with a show ?thesis by (simp add: dbl_sub_def)
  next
    case (Inf t)
    with a show ?thesis by (simp add: dbl_sub_def)
  next
    case b: (Fin s2 m2 e2)
    define e where "e = min e1 e2"
    define c where "c = signed s1 m1 * 2 ^ nat (e1 - e) + signed (\<not> s2) m2 * 2 ^ nat (e2 - e)"
    have e': "min e2 e1 = e" by (simp add: e_def min.commute)
    have c': "signed s2 m2 * 2 ^ nat (e2 - e) + signed (\<not> s1) m1 * 2 ^ nat (e1 - e) = - c"
      by (simp add: c_def signed_not)
    have ab: "dbl_sub a b =
        (if c = 0 then Fin (s1 \<and> \<not> s2) 0 (- 1074) else round_nearest_even (c < 0) (nat \<bar>c\<bar>) e)"
      by (simp add: a b dbl_sub_def Let_def e_def [symmetric] c_def [symmetric])
    have ba: "dbl_sub b a =
        (if c = 0 then Fin (s2 \<and> \<not> s1) 0 (- 1074) else round_nearest_even (\<not> c < 0) (nat \<bar>c\<bar>) e)"
    proof -
      have "(- c < 0) = (\<not> c < 0) \<or> c = 0" by auto
      then show ?thesis
        by (auto simp add: a b dbl_sub_def Let_def e' c')
    qed
    show ?thesis
    proof (cases "c = 0")
      case True
      then show ?thesis by (simp add: ab ba dbl_mul_zero_zero)
    next
      case False
      then show ?thesis
        by (simp add: ab ba round_nearest_even_neg dbl_mul_neg_neg)
    qed
  qed
qed

lemma dbl_sub_self: "is_finite a \<Longrightarrow> dbl_sub a a = dbl_zero"
  by (cases a) (simp_all add: dbl_sub_def signed_not dbl_zero_def)

lemma dbl_add_zero_zero: "dbl_add dbl_zero dbl_zero = dbl_zero"
  by (simp add: dbl_zero_def signed_def)

lemma dbl_sqrt_zero: "dbl_sqrt dbl_zero = dbl_zero"
  by (simp add: dbl_zero_def)

lemma dbl_of_int_0: "dbl_of_int 0 = dbl_zero"
  by (simp add: dbl_of_int_def round_nearest_even_def dbl_zero_def)

lemma not_nan_sub: "is_finite a \<Longrightarrow> is_finite b \<Longrightarrow> \<not> is_nan (dbl_sub a b)"
  by (cases a; cases b) (simp_all add: dbl_sub_def Let_def not_nan_round)

lemma nan_or_clear_square: "is_nan (dbl_mul d d) \<or> sign_clear (dbl_mul d d)"
  by (cases d) (simp_all add: sign_clear_round)

lemma sign_clear_square: "\<not> is_nan d \<Longrightarrow> sign_clear (dbl_mul d d)"
  by (cases d) (simp_all add: sign_clear_round)

lemma signed_False_nonneg: "0 \<le> signed False m * 2 ^ k"
  by (simp add: signed_def)

lemma sign_clear_add: "sign_clear a \<Longrightarrow> sign_clear b \<Longrightarrow> sign_clear (dbl_add a b)"
proof (cases a; cases b)
  fix s1 m1 e1 s2 m2 e2
  assume a: "a = Fin s1 m1 e1" and b: "b = Fin s2 m2 e2"
    and "sign_clear a" "sign_clear b"
  then have s: "s1 = False" "s2 = False" by simp_all
  define c where "c = signed False m1 * 2 ^ nat (e1 - min e1 e2) + signed False m2 * 2 ^ nat (e2 - min e1 e2)"
  have "0 \<le> c" unfolding c_def by (intro add_nonneg_nonneg signed_False_nonneg)
  then have "\<not> c < 0" by simp
  then show "sign_clear (dbl_add a b)"
    by (simp add: a b s Let_def c_def [symmetric] sign_clear_round)
qed simp_all

lemma nan_or_clear_add:
  "is_nan a \<or> sign_clear a \<Longrightarrow> is_nan b \<or> sign_clear b \<Longrightarrow>
   is_nan (dbl_add a b) \<or> sign_clear (dbl_add a b)"
proof -
  assume a: "is_nan a \<or> sign_clear a" and b: "is_nan b \<or> sign_clear b"
  show ?thesis
  proof (cases "is_nan a \<or> is_nan b")
    case True
    then have "dbl_add a b = NaN" by (cases a; cases b) simp_all
    then show ?thesis by simp
  next
    case False
    with a b have "sign_clear a" "sign_clear b" by auto
    then show ?thesis by (simp add: sign_clear_add)
  qed
qed

lemma sign_clear_sqrt: "sign_clear d \<Longrightarrow> sign_clear (dbl_sqrt d)"
  by (cases d) (simp_all add: Let_def sign_clear_round)

lemma nan_or_clear_sqrt:
  "is_nan d \<or> sign_clear d \<Longrightarrow> is_nan (dbl_sqrt d) \<or> sign_clear (dbl_sqrt d)"
  by (cases d) (simp_all add: Let_def sign_clear_round)

lemma sign_clear_le: "sign_clear d \<Longrightarrow> dbl_le dbl_zero d"
  by (cases d) (simp_all add: dbl_zero_def Let_def signed_def)

lemma dbl_sub_self_not_finite: "\<not> is_finite a \<Longrightarrow> dbl_sub a a = NaN"
  by (cases a) (simp_all add: dbl_sub_def)

lemma dbl_mul_zero: "dbl_mul dbl_zero dbl_zero = dbl_zero"
  by (simp add: dbl_zero_def round_nearest_even_def)

lemma square_self:
  "dbl_mul (dbl_sub a a) (dbl_sub a a) = (if is_finite a then dbl_zero else NaN)"
  by (simp add: dbl_sub_self dbl_sub_self_not_finite dbl_mul_zero)

lemma dbl_add_NaN_right: "dbl_add a NaN = NaN"
  by (cases a) simp_all

text \<open>
  Integers in doubles: rounding does not depend on the representation of the value, so
  operations on doubles that hold integers are exact as long as the results are
  below \<open>2^53\<close> in magnitude.
\<close>

lemma round_nearest_even_scale:
  "round_nearest_even s (m * 2 ^ k) (e - int k) = round_nearest_even s m e"
proof (cases "m = 0")
  case True
  then show ?thesis by (simp add: round_nearest_even_def)
next
  case False
  then have m: "0 < m" by simp
  define q where "q = max (e + int (bitlen m) - 53) (- 1074)"
  have q': "max (e - int k + int (bitlen (m * 2 ^ k)) - 53) (- 1074) = q"
    by (simp add: bitlen_mult_pow2 [OF m] q_def)
  have mk: "m * 2 ^ k \<noteq> 0" using m by simp
  have lhs: "round_nearest_even s (m * 2 ^ k) (e - int k) =
      (if q \<le> e - int k then pack s (m * 2 ^ k * 2 ^ nat (e - int k - q)) q
       else pack s (round_digits (m * 2 ^ k) (nat (q - (e - int k)))) q)"
    unfolding round_nearest_even_def Let_def q' round_digits_def using mk by simp
  have rhs: "round_nearest_even s m e =
      (if q \<le> e then pack s (m * 2 ^ nat (e - q)) q
       else pack s (round_digits m (nat (q - e))) q)"
    unfolding round_nearest_even_def Let_def q_def [symmetric] round_digits_def using False by simp
  consider (a) "q \<le> e - int k" | (b) "e - int k < q" "q \<le> e" | (c) "e < q" by linarith
  then show ?thesis
  proof cases
    case a
    then have "nat (e - q) = k + nat (e - int k - q)" by simp
    then have eq: "m * 2 ^ k * 2 ^ nat (e - int k - q) = m * 2 ^ nat (e - q)"
      by (simp add: power_add)
    from a have "q \<le> e" by simp
    with a show ?thesis unfolding lhs rhs eq by (simp only: if_True)
  next
    case b
    define d where "d = nat (q - (e - int k))"
    define j where "j = nat (e - q)"
    have k: "k = j + d" and d: "1 \<le> d" using b by (simp_all add: d_def j_def)
    have dv: "(m * 2 ^ k) div 2 ^ d = m * 2 ^ j"
      by (simp add: k power_add)
    have md: "(m * 2 ^ k) mod 2 ^ d = 0"
      by (simp add: k power_add)
    have "round_digits (m * 2 ^ k) d = m * 2 ^ j"
      unfolding round_digits_def dv md by simp
    with b show ?thesis unfolding lhs rhs d_def [symmetric] j_def [symmetric] by simp
  next
    case c
    define d where "d = nat (q - e)"
    have d: "1 \<le> d" and dk: "nat (q - (e - int k)) = d + k" using c by (simp_all add: d_def)
    have two: "(2::nat) ^ (d + k - 1) = 2 ^ (d - 1) * 2 ^ k"
      using d by (simp add: power_add [symmetric])
    have dv: "(m * 2 ^ k) div 2 ^ (d + k) = m div 2 ^ d"
      by (simp add: power_add)
    have md: "(m * 2 ^ k) mod 2 ^ (d + k) = (m mod 2 ^ d) * 2 ^ k"
      by (simp add: power_add)
    have "round_digits (m * 2 ^ k) (d + k) = round_digits m d"
      unfolding round_digits_def dv md two by simp
    with c show ?thesis unfolding lhs rhs dk d_def [symmetric] by simp
  qed
qed

lemma round_int:
  assumes n: "0 < n" "n < 2 ^ 53"
  shows "round_nearest_even s n 0 =
    Fin s (n * 2 ^ (53 - bitlen n)) (- int (53 - bitlen n))"
proof -
  have b: "bitlen n \<le> 53" using n by (rule bitlen_le)
  have "n < 2 ^ bitlen n" using bitlen_bounds [OF n(1)] by simp
  then have "n * 2 ^ (53 - bitlen n) < 2 ^ bitlen n * 2 ^ (53 - bitlen n)" by simp
  also have "\<dots> = 2 ^ 53" using b by (simp add: power_add [symmetric])
  finally have lt: "n * 2 ^ (53 - bitlen n) < 2 ^ 53" .
  have q: "max (int (bitlen n) - 53) (- 1074) = int (bitlen n) - 53" by simp
  have e: "int (bitlen n) - 53 = - int (53 - bitlen n)" using b by simp
  have "round_nearest_even s n 0 =
      pack s (n * 2 ^ (53 - bitlen n)) (int (bitlen n) - 53)"
    using n(1) b by (simp add: round_nearest_even_def q Let_def nat_diff_distrib')
  also have "\<dots> = Fin s (n * 2 ^ (53 - bitlen n)) (int (bitlen n) - 53)"
    using lt b by (simp add: pack_def)
  finally show ?thesis unfolding e .
qed

lemma represents_round:
  assumes "n < 2 ^ 53"
  shows "represents_int (round_nearest_even s n 0) (signed s n)"
proof (cases "n = 0")
  case True
  have "round_nearest_even s 0 0 = Fin s 0 (- int 1074)"
    by (simp add: round_nearest_even_def)
  moreover have "signed s 0 = signed s 0 * 2 ^ 1074" by (simp add: signed_def)
  ultimately show ?thesis unfolding represents_int_def True by blast
next
  case False
  then have "0 < n" by simp
  from round_int [OF this assms, of s]
  show ?thesis unfolding represents_int_def
    by (intro exI [of _ s] exI [of _ "n * 2 ^ (53 - bitlen n)"] exI [of _ "53 - bitlen n"])
      (simp add: signed_def)
qed

lemma signed_abs: "signed (a < 0) (nat \<bar>a\<bar>) = a"
  by (simp add: signed_def)

lemma represents_of_int: "\<bar>a\<bar> < 2 ^ 53 \<Longrightarrow> represents_int (dbl_of_int a) a"
  using represents_round [of "nat \<bar>a\<bar>" "a < 0"]
  by (simp add: dbl_of_int_def signed_abs nat_less_iff)

lemma round_int_scale:
  "round_nearest_even (a < 0) (nat \<bar>a * 2 ^ k\<bar>) (- int k) = dbl_of_int a"
proof -
  have "nat \<bar>a * 2 ^ k\<bar> = nat \<bar>a\<bar> * 2 ^ k"
    by (simp add: abs_mult nat_mult_distrib nat_power_eq)
  then show ?thesis
    using round_nearest_even_scale [of "a < 0" "nat \<bar>a\<bar>" k 0]
    by (simp add: dbl_of_int_def)
qed

lemma dbl_add_represents:
  assumes "represents_int d1 a" and "represents_int d2 b"
  shows "(a + b \<noteq> 0 \<longrightarrow> dbl_add d1 d2 = dbl_of_int (a + b)) \<and>
    (a + b = 0 \<longrightarrow> (\<exists>s. dbl_add d1 d2 = Fin s 0 (- 1074)))"
proof -
  from assms obtain s1 m1 k1 s2 m2 k2 where
    d1: "d1 = Fin s1 m1 (- int k1)" and v1: "signed s1 m1 = a * 2 ^ k1" and
    d2: "d2 = Fin s2 m2 (- int k2)" and v2: "signed s2 m2 = b * 2 ^ k2"
    unfolding represents_int_def by blast
  define K where "K = max k1 k2"
  define c where "c = signed s1 m1 * 2 ^ nat (- int k1 - (- int K)) +
    signed s2 m2 * 2 ^ nat (- int k2 - (- int K))"
  have e: "min (- int k1) (- int k2) = - int K" by (simp add: K_def)
  have n1: "nat (- int k1 - (- int K)) = K - k1" and n2: "nat (- int k2 - (- int K)) = K - k2"
    by (simp_all add: K_def)
  have p1: "(2::int) ^ k1 * 2 ^ (K - k1) = 2 ^ K" and p2: "(2::int) ^ k2 * 2 ^ (K - k2) = 2 ^ K"
    by (simp_all add: power_add [symmetric] K_def)
  have "c = a * (2 ^ k1 * 2 ^ (K - k1)) + b * (2 ^ k2 * 2 ^ (K - k2))"
    unfolding c_def n1 n2 v1 v2 by (simp only: mult.assoc)
  then have c: "c = (a + b) * 2 ^ K" unfolding p1 p2 by (simp add: algebra_simps)
  have add: "dbl_add d1 d2 =
      (if c = 0 then Fin (s1 \<and> s2) 0 (- 1074) else round_nearest_even (c < 0) (nat \<bar>c\<bar>) (- int K))"
    unfolding d1 d2 dbl_add.simps Let_def e c_def ..
  have c0: "(c = 0) = (a + b = 0)" and cneg: "(c < 0) = (a + b < 0)"
    unfolding c by (simp_all add: mult_less_0_iff)
  show ?thesis
    unfolding add c0 cneg unfolding c by (auto simp add: round_int_scale)
qed

lemma dbl_neg_represents: "represents_int d a \<Longrightarrow> represents_int (dbl_neg d) (- a)"
  unfolding represents_int_def by (auto simp add: signed_not)

lemma dbl_sub_represents:
  assumes "represents_int d1 a" and "represents_int d2 b"
  shows "(a \<noteq> b \<longrightarrow> dbl_sub d1 d2 = dbl_of_int (a - b)) \<and>
    (a = b \<longrightarrow> (\<exists>s. dbl_sub d1 d2 = Fin s 0 (- 1074)))"
  using dbl_add_represents [OF assms(1) dbl_neg_represents [OF assms(2)]]
  by (simp add: dbl_sub_def)

lemma dbl_square_represents:
  assumes "represents_int d a"
  shows "dbl_mul d d = dbl_of_int (a * a)"
proof -
  from assms obtain s m k where d: "d = Fin s m (- int k)" and v: "signed s m = a * 2 ^ k"
    unfolding represents_int_def by blast
  have "int m = \<bar>a * 2 ^ k\<bar>" using v by (auto simp add: signed_def split: if_splits)
  then have "int (m * m) = \<bar>a * a * 2 ^ (k + k)\<bar>"
    by (simp add: abs_mult power_add algebra_simps)
  then have m: "m * m = nat \<bar>a * a * 2 ^ (k + k)\<bar>" by linarith
  have neg: "(a * a < 0) = False" by (simp add: not_less)
  have "dbl_mul d d = round_nearest_even False (m * m) (- int (k + k))"
    unfolding d by simp
  also have "\<dots> = dbl_of_int (a * a)"
    unfolding m using round_int_scale [of "a * a" "k + k"] by (simp only: neg)
  finally show ?thesis .
qed

lemma square_difference_exact:
  assumes "\<bar>a\<bar> < 2 ^ 52" and "\<bar>b\<bar> < 2 ^ 52"
  shows "dbl_mul (dbl_sub (dbl_of_int a) (dbl_of_int b)) (dbl_sub (dbl_of_int a) (dbl_of_int b)) =
    dbl_of_int ((a - b) * (a - b))"
proof -
  have ra: "represents_int (dbl_of_int a) a" and rb: "represents_int (dbl_of_int b) b"
    using assms by (simp_all add: represents_of_int)
  show ?thesis
  proof (cases "a = b")
    case True
    with dbl_sub_represents [OF ra rb] obtain s where
      eq: "dbl_sub (dbl_of_int a) (dbl_of_int b) = Fin s 0 (- 1074)" by blast
    have z: "(a - b) * (a - b) = 0" using True by simp
    show ?thesis unfolding eq dbl_mul_zero_zero z dbl_of_int_0 ..
  next
    case False
    with dbl_sub_represents [OF ra rb]
    have eq: "dbl_sub (dbl_of_int a) (dbl_of_int b) = dbl_of_int (a - b)" by blast
    have "\<bar>a - b\<bar> < 2 ^ 53" using assms by simp
    then have "represents_int (dbl_of_int (a - b)) (a - b)" by (rule represents_of_int)
    then show ?thesis unfolding eq by (rule dbl_square_represents)
  qed
qed

lemma dbl_add_of_int:
  assumes "0 \<le> u" "u < 2 ^ 53" "0 \<le> w" "w < 2 ^ 53"
  shows "dbl_add (dbl_of_int u) (dbl_of_int w) = dbl_of_int (u + w)"
proof (cases "u + w = 0")
  case True
  with assms have "u = 0" "w = 0" by simp_all
  then show ?thesis by (simp add: dbl_of_int_0 dbl_add_zero_zero)
next
  case False
  have "represents_int (dbl_of_int u) u" "represents_int (dbl_of_int w) w"
    using assms by (simp_all add: represents_of_int)
  from dbl_add_represents [OF this] False show ?thesis by blast
qed

text \<open>\<open>int\<close>: an expression is defined exactly when every subexpression is.\<close>

lemma int_square_sym:
  "int_times (int_minus a b) (int_minus a b) = int_times (int_minus b a) (int_minus b a)"
proof -
  define r where "r = sint a - sint b"
  have ba: "sint b - sint a = - r" by (simp add: r_def)
  consider (inner) "- (2 ^ 31) < r" "r < 2 ^ 31"
    | (low) "r = - (2 ^ 31)" | (high) "r = 2 ^ 31"
    | (outer) "r < - (2 ^ 31) \<or> 2 ^ 31 < r"
    by linarith
  then show ?thesis
  proof cases
    case inner
    then show ?thesis
      by (simp add: int_minus_def ba r_def [symmetric] int_result_def)
  next
    case low
    then show ?thesis
      by (simp add: int_minus_def ba r_def [symmetric] int_result_def)
  next
    case high
    then show ?thesis
      by (simp add: int_minus_def ba r_def [symmetric] int_result_def)
  next
    case outer
    then show ?thesis
      by (auto simp add: int_minus_def ba r_def [symmetric] int_result_def)
  qed
qed

lemma int_minus_self: "int_minus a a = Some 0"
  by (simp add: int_minus_def int_result_def)

lemma int_square_nonneg: "int_times d d = Some v \<Longrightarrow> 0 \<le> v"
  by (cases d) (auto simp: int_result_def split: if_splits)

lemma int_plus_Some:
  "int_plus a b = Some v \<Longrightarrow> \<exists>u w. a = Some u \<and> b = Some w \<and> v = u + w"
  by (cases a; cases b) (auto simp: int_result_def split: if_splits)

lemma int_sqrt_Some: "int_sqrt r = Some d \<Longrightarrow> \<exists>v. r = Some v \<and> d = dbl_sqrt (dbl_of_int v)"
  by (cases r) auto

lemma sign_clear_of_nonneg: "0 \<le> v \<Longrightarrow> sign_clear (dbl_of_int v)"
  by (simp add: dbl_of_int_def sign_clear_round)

lemma int_plus_range: "int_plus a b = Some v \<Longrightarrow> v < 2 ^ 31"
  by (cases a; cases b) (auto simp: int_result_def split: if_splits)

lemma dbl_sqrt_of_int_within_half_ulp:
  assumes "0 \<le> v" "v < 2 ^ 53"
  shows "within_half_ulp (dbl_sqrt (dbl_of_int v)) (sqrt (real_of_int v))"
proof (cases "v = 0")
  case True
  then show ?thesis
    by (simp add: dbl_of_int_0 dbl_sqrt_zero within_half_ulp_def dbl_zero_def signed_def pow2_def)
next
  case False
  with assms(1) have "0 < v" by simp
  from dbl_sqrt_of_int_pos [OF this assms(2)] obtain m q where
    "dbl_sqrt (dbl_of_int v) = Fin False m q"
    "\<bar>real m * pow2 q - sqrt (real_of_int v)\<bar> \<le> pow2 q / 2"
    "2 ^ 52 \<le> m" "m < 2 ^ 53"
    by blast
  then show ?thesis by (simp add: within_half_ulp_def signed_def)
qed

lemma int_square_Some:
  "int_times (int_minus a b) (int_minus a b) = Some v \<Longrightarrow> v = (sint a - sint b)\<^sup>2"
  by (auto simp: int_minus_def int_result_def power2_eq_square split: if_splits)

lemma radicand_nan_or_clear:
  "is_nan (dbl_add (dbl_add (dbl_mul a a) (dbl_mul b b)) (dbl_mul c c)) \<or>
   sign_clear (dbl_add (dbl_add (dbl_mul a a) (dbl_mul b b)) (dbl_mul c c))"
  by (intro nan_or_clear_add nan_or_clear_square)

lemma radicand_clear:
  "\<not> is_nan a \<Longrightarrow> \<not> is_nan b \<Longrightarrow> \<not> is_nan c \<Longrightarrow>
   sign_clear (dbl_add (dbl_add (dbl_mul a a) (dbl_mul b b)) (dbl_mul c c))"
  by (intro sign_clear_add sign_clear_square)

lemma int_radicand_nonneg:
  assumes "int_plus (int_plus (int_times a a) (int_times b b)) (int_times c c) = Some v"
  shows "0 \<le> v"
proof -
  from int_plus_Some [OF assms] obtain u w where
    uw: "int_plus (int_times a a) (int_times b b) = Some u" "int_times c c = Some w" "v = u + w"
    by blast
  from int_plus_Some [OF uw(1)] obtain u1 u2 where
    u: "int_times a a = Some u1" "int_times b b = Some u2" "u = u1 + u2"
    by blast
  from u(1,2) uw(2) have "0 \<le> u1" "0 \<le> u2" "0 \<le> w"
    by (auto dest: int_square_nonneg)
  with uw(3) u(3) show ?thesis by simp
qed

text \<open>
  The value of \<open>distanceFrom\<close>: for \<open>Point<int>\<close> it is defined exactly when the sum
  of the squared differences fits in \<open>int\<close>; for \<open>Point<double>\<close> with small integer
  coordinates every step before the root is exact.
\<close>

lemma int_square_le: "\<bar>d\<bar> \<le> c \<Longrightarrow> d * d \<le> c * (c::int)"
proof -
  assume a: "\<bar>d\<bar> \<le> c"
  have "d * d = \<bar>d\<bar> * \<bar>d\<bar>" by simp
  also have "\<dots> \<le> c * c" using a by (intro mult_mono) auto
  finally show ?thesis .
qed

lemma int_square_small:
  assumes "d * d \<le> 2 ^ 31 - 1"
  shows "int_times (int_result d) (int_result d) = Some (d * (d::int))"
proof -
  have "\<not> 2 ^ 16 \<le> \<bar>d\<bar>"
  proof
    assume "2 ^ 16 \<le> \<bar>d\<bar>"
    then have "2 ^ 16 * 2 ^ 16 \<le> \<bar>d\<bar> * \<bar>d\<bar>" by (intro mult_mono) auto
    then show False using assms by simp
  qed
  then have "- (2 ^ 31) \<le> d \<and> d \<le> 2 ^ 31 - 1"
    by (auto simp add: not_le abs_less_iff)
  then have "int_result d = Some d" by (simp add: int_result_def)
  moreover have "0 \<le> d * d" by simp
  then have "- (2 ^ 31) \<le> d * d \<and> d * d \<le> 2 ^ 31 - 1" using assms by linarith
  ultimately show ?thesis by (simp add: int_result_def)
qed

lemma int_distance_Some:
  assumes "fst (distanceFrom int_ops g p q) = Some d"
  shows "d = dbl_sqrt (dbl_of_int
            ((sint (x g p) - sint (x g q))\<^sup>2 +
             (sint (y g p) - sint (y g q))\<^sup>2 +
             (sint (z g p) - sint (z g q))\<^sup>2)) \<and>
         (sint (x g p) - sint (x g q))\<^sup>2 +
             (sint (y g p) - sint (y g q))\<^sup>2 +
             (sint (z g p) - sint (z g q))\<^sup>2 < 2 ^ 31"
proof -
  let ?sq = "\<lambda>a b. int_times (int_minus a b) (int_minus a b)"
  from assms have "int_sqrt (int_plus (int_plus (?sq (x_' (g p)) (x_' (g q)))
      (?sq (y_' (g p)) (y_' (g q)))) (?sq (z_' (g p)) (z_' (g q)))) = Some d"
    by (simp add: distanceFrom_def int_ops_def)
  from int_sqrt_Some [OF this] obtain v where
    v: "int_plus (int_plus (?sq (x_' (g p)) (x_' (g q))) (?sq (y_' (g p)) (y_' (g q))))
          (?sq (z_' (g p)) (z_' (g q))) = Some v"
    and d: "d = dbl_sqrt (dbl_of_int v)"
    by blast
  from int_plus_Some [OF v] obtain u w where
    u: "int_plus (?sq (x_' (g p)) (x_' (g q))) (?sq (y_' (g p)) (y_' (g q))) = Some u"
    and w: "?sq (z_' (g p)) (z_' (g q)) = Some w" and vuw: "v = u + w"
    by blast
  from int_plus_Some [OF u] obtain u1 u2 where
    u1: "?sq (x_' (g p)) (x_' (g q)) = Some u1"
    and u2: "?sq (y_' (g p)) (y_' (g q)) = Some u2" and uu: "u = u1 + u2"
    by blast
  have "u1 = (sint (x g p) - sint (x g q))\<^sup>2" "u2 = (sint (y g p) - sint (y g q))\<^sup>2"
    "w = (sint (z g p) - sint (z g q))\<^sup>2"
    using u1 u2 w by (simp_all add: int_square_Some x_def y_def z_def)
  with vuw uu have S: "v = (sint (x g p) - sint (x g q))\<^sup>2 +
      (sint (y g p) - sint (y g q))\<^sup>2 + (sint (z g p) - sint (z g q))\<^sup>2" by simp
  from int_plus_range [OF v] d show ?thesis unfolding S by simp
qed

lemma int_distance_defined:
  assumes "(sint (x g p) - sint (x g q))\<^sup>2 + (sint (y g p) - sint (y g q))\<^sup>2 +
      (sint (z g p) - sint (z g q))\<^sup>2 \<le> 2 ^ 31 - 1"
  shows "fst (distanceFrom int_ops g p q) = Some (dbl_sqrt (dbl_of_int
            ((sint (x g p) - sint (x g q))\<^sup>2 +
             (sint (y g p) - sint (y g q))\<^sup>2 +
             (sint (z g p) - sint (z g q))\<^sup>2)))"
proof -
  define d1 where "d1 = sint (x_' (g p)) - sint (x_' (g q))"
  define d2 where "d2 = sint (y_' (g p)) - sint (y_' (g q))"
  define d3 where "d3 = sint (z_' (g p)) - sint (z_' (g q))"
  have S: "d1 * d1 + d2 * d2 + d3 * d3 \<le> 2 ^ 31 - 1"
    using assms by (simp add: d1_def d2_def d3_def x_def y_def z_def power2_eq_square)
  have nn: "0 \<le> d1 * d1" "0 \<le> d2 * d2" "0 \<le> d3 * d3" by simp_all
  have s1: "int_times (int_result d1) (int_result d1) = Some (d1 * d1)"
    and s2: "int_times (int_result d2) (int_result d2) = Some (d2 * d2)"
    and s3: "int_times (int_result d3) (int_result d3) = Some (d3 * d3)"
    using S nn by (intro int_square_small; linarith)+
  have r1: "- (2 ^ 31) \<le> d1 * d1 + d2 * d2 \<and> d1 * d1 + d2 * d2 \<le> 2 ^ 31 - 1"
    and r2: "- (2 ^ 31) \<le> d1 * d1 + d2 * d2 + d3 * d3 \<and>
      d1 * d1 + d2 * d2 + d3 * d3 \<le> 2 ^ 31 - 1"
    using S nn by linarith+
  have p1: "int_plus (Some (d1 * d1)) (Some (d2 * d2)) = Some (d1 * d1 + d2 * d2)"
    using r1 by (simp add: int_result_def)
  have p2: "int_plus (Some (d1 * d1 + d2 * d2)) (Some (d3 * d3)) =
      Some (d1 * d1 + d2 * d2 + d3 * d3)"
    using r2 by (simp add: int_result_def)
  have "fst (distanceFrom int_ops g p q) =
      int_sqrt (int_plus (int_plus (int_times (int_result d1) (int_result d1))
        (int_times (int_result d2) (int_result d2))) (int_times (int_result d3) (int_result d3)))"
    by (simp add: distanceFrom_def int_ops_def int_minus_def d1_def d2_def d3_def)
  also have "\<dots> = Some (dbl_sqrt (dbl_of_int (d1 * d1 + d2 * d2 + d3 * d3)))"
    unfolding s1 s2 s3 p1 p2 by simp
  finally show ?thesis
    by (simp add: d1_def d2_def d3_def x_def y_def z_def power2_eq_square)
qed

lemma double_distance_exact:
  assumes c: "x f p = dbl_of_int a1" "y f p = dbl_of_int a2" "z f p = dbl_of_int a3"
      "x f q = dbl_of_int b1" "y f q = dbl_of_int b2" "z f q = dbl_of_int b3"
    and b: "\<bar>a1\<bar> \<le> 2 ^ 24" "\<bar>a2\<bar> \<le> 2 ^ 24" "\<bar>a3\<bar> \<le> 2 ^ 24"
      "\<bar>b1\<bar> \<le> 2 ^ 24" "\<bar>b2\<bar> \<le> 2 ^ 24" "\<bar>b3\<bar> \<le> 2 ^ 24"
  shows "fst (distanceFrom double_ops f p q) =
      dbl_sqrt (dbl_of_int ((a1 - b1)\<^sup>2 + (a2 - b2)\<^sup>2 + (a3 - b3)\<^sup>2)) \<and>
    (a1 - b1)\<^sup>2 + (a2 - b2)\<^sup>2 + (a3 - b3)\<^sup>2 < 2 ^ 53"
proof -
  have sq: "dbl_mul (dbl_sub (dbl_of_int a) (dbl_of_int b)) (dbl_sub (dbl_of_int a) (dbl_of_int b)) =
      dbl_of_int ((a - b) * (a - b)) \<and> (a - b) * (a - b) \<le> 2 ^ 25 * 2 ^ 25"
    if "\<bar>a\<bar> \<le> 2 ^ 24" "\<bar>b\<bar> \<le> 2 ^ 24" for a b :: int
  proof
    show "dbl_mul (dbl_sub (dbl_of_int a) (dbl_of_int b)) (dbl_sub (dbl_of_int a) (dbl_of_int b)) =
      dbl_of_int ((a - b) * (a - b))"
      using that by (intro square_difference_exact) simp_all
    have "\<bar>a - b\<bar> \<le> 2 ^ 25" using that by simp
    then show "(a - b) * (a - b) \<le> 2 ^ 25 * 2 ^ 25" by (rule int_square_le)
  qed
  define u1 where "u1 = (a1 - b1) * (a1 - b1)"
  define u2 where "u2 = (a2 - b2) * (a2 - b2)"
  define u3 where "u3 = (a3 - b3) * (a3 - b3)"
  have nn: "0 \<le> u1" "0 \<le> u2" "0 \<le> u3" by (simp_all add: u1_def u2_def u3_def)
  have le: "u1 \<le> 2 ^ 50" "u2 \<le> 2 ^ 50" "u3 \<le> 2 ^ 50"
    using sq [OF b(1) b(4)] sq [OF b(2) b(5)] sq [OF b(3) b(6)]
    by (simp_all add: u1_def u2_def u3_def)
  have "fst (distanceFrom double_ops f p q) =
      dbl_sqrt (dbl_add (dbl_add (dbl_of_int u1) (dbl_of_int u2)) (dbl_of_int u3))"
    using c sq [OF b(1) b(4)] sq [OF b(2) b(5)] sq [OF b(3) b(6)]
    by (simp add: distanceFrom_def double_ops_def x_def y_def z_def u1_def u2_def u3_def)
  also have "dbl_add (dbl_of_int u1) (dbl_of_int u2) = dbl_of_int (u1 + u2)"
    using nn le by (intro dbl_add_of_int) simp_all
  also have "dbl_add (dbl_of_int (u1 + u2)) (dbl_of_int u3) = dbl_of_int (u1 + u2 + u3)"
    using nn le by (intro dbl_add_of_int) simp_all
  finally have "fst (distanceFrom double_ops f p q) = dbl_sqrt (dbl_of_int (u1 + u2 + u3))" .
  moreover have "u1 + u2 + u3 < 2 ^ 53" using le by simp
  ultimately show ?thesis
    by (simp add: u1_def u2_def u3_def power2_eq_square)
qed

lemma dbl_eq_self: "dbl_eq d d = (\<not> is_nan d)"
  by (cases d) simp_all

lemma sign_clear_not_nan: "sign_clear d \<Longrightarrow> \<not> is_nan d"
  by (cases d) simp_all

lemma double_distance_clear:
  assumes "is_finite (x h p)" "is_finite (y h p)" "is_finite (z h p)"
    "is_finite (x h q)" "is_finite (y h q)" "is_finite (z h q)"
  shows "sign_clear (fst (distanceFrom double_ops h p q))"
proof -
  have "sign_clear (dbl_add (dbl_add
      (dbl_mul (dbl_sub (x_' (h p)) (x_' (h q))) (dbl_sub (x_' (h p)) (x_' (h q))))
      (dbl_mul (dbl_sub (y_' (h p)) (y_' (h q))) (dbl_sub (y_' (h p)) (y_' (h q)))))
      (dbl_mul (dbl_sub (z_' (h p)) (z_' (h q))) (dbl_sub (z_' (h p)) (z_' (h q)))))"
    using assms by (intro radicand_clear not_nan_sub) (simp_all add: x_def y_def z_def)
  then show ?thesis
    by (simp add: distanceFrom_def double_ops_def sign_clear_sqrt)
qed

lemma int_distance_clear:
  assumes "fst (distanceFrom int_ops g p q) = Some d"
  shows "sign_clear d"
proof -
  from int_distance_Some [OF assms]
  have "d = dbl_sqrt (dbl_of_int ((sint (x g p) - sint (x g q))\<^sup>2 +
      (sint (y g p) - sint (y g q))\<^sup>2 + (sint (z g p) - sint (z g q))\<^sup>2))" ..
  moreover have "0 \<le> (sint (x g p) - sint (x g q))\<^sup>2 +
      (sint (y g p) - sint (y g q))\<^sup>2 + (sint (z g p) - sint (z g q))\<^sup>2" by simp
  ultimately show ?thesis by (simp only: sign_clear_sqrt sign_clear_of_nonneg)
qed

lemma double_distance_sym:
  "fst (distanceFrom double_ops h p q) = fst (distanceFrom double_ops h q p)"
  by (simp add: distanceFrom_def double_ops_def)
    (simp only: square_difference_sym [of "x_' (h p)"] square_difference_sym [of "y_' (h p)"]
      square_difference_sym [of "z_' (h p)"])

lemma int_distance_sym:
  "fst (distanceFrom int_ops g p q) = fst (distanceFrom int_ops g q p)"
  by (simp add: distanceFrom_def int_ops_def)
    (simp only: int_square_sym [of "x_' (g p)"] int_square_sym [of "y_' (g p)"]
      int_square_sym [of "z_' (g p)"])

lemma sqrt3_near: "\<bar>7800463371553962 / 2 ^ 52 - sqrt 3\<bar> \<le> 1 / 2 ^ 53"
proof -
  have lo: "(7800463371553962 / 2 ^ 52 - 1 / 2 ^ 53 :: real) \<le> sqrt 3"
    by (rule real_le_rsqrt) (simp add: power2_eq_square)
  have hi: "sqrt 3 \<le> (7800463371553962 / 2 ^ 52 + 1 / 2 ^ 53 :: real)"
    by (rule real_le_lsqrt) (simp_all add: power2_eq_square)
  from lo hi show ?thesis
    unfolding abs_le_iff by linarith
qed

section \<open>Properties of construction and access\<close>

text \<open>
  C2. Accessor round-trip: a Point constructed from \<open>(a, b, c)\<close> reads back exactly
  \<open>a\<close>, \<open>b\<close> and \<open>c\<close> through \<open>x()\<close>, \<open>y()\<close> and \<open>z()\<close>, for every coordinate type
  and all values: the constructor is defined on every input and stores each argument
  in its own member.
\<close>

theorem accessor_round_trip:
  "x (Point h this a b c) this = a \<and>
   y (Point h this a b c) this = b \<and>
   z (Point h this a b c) this = c"
  by (simp add: Point_def x_def y_def z_def)

text \<open>
  C3. Mutation isolation: assigning \<open>v\<close> through the reference one mutable accessor
  returns replaces that coordinate's member and nothing else: the other two
  coordinates of the object read as before.
\<close>

theorem mutation_isolation:
  "y (ref_assign h (x_ref this) v) this = y h this \<and>
   z (ref_assign h (x_ref this) v) this = z h this \<and>
   x (ref_assign h (y_ref this) v) this = x h this \<and>
   z (ref_assign h (y_ref this) v) this = z h this \<and>
   x (ref_assign h (z_ref this) v) this = x h this \<and>
   y (ref_assign h (z_ref this) v) this = y h this"
  by (simp add: x_def y_def z_def x_ref_def y_ref_def z_ref_def)

text \<open>
  C9. Write-read round-trip: after assigning \<open>v\<close> through the reference a mutable
  accessor returns, the same accessor, read through the reference or through the
  \<open>const\<close> overload, gives \<open>v\<close>. The reference is the stored member itself, so a
  later \<open>distanceFrom\<close> computes with \<open>v\<close> in place of the old coordinate, whether the
  object written to is the receiver or the argument of the call (and in both places
  when it is both).
\<close>

theorem write_read_round_trip:
  "ref_get (ref_assign h (x_ref this) v) (x_ref this) = v \<and>
   ref_get (ref_assign h (y_ref this) v) (y_ref this) = v \<and>
   ref_get (ref_assign h (z_ref this) v) (z_ref this) = v \<and>
   x (ref_assign h (x_ref this) v) this = v \<and>
   y (ref_assign h (y_ref this) v) this = v \<and>
   z (ref_assign h (z_ref this) v) this = v \<and>
   fst (distanceFrom T (ref_assign h (x_ref this) v) this other) =
     std_sqrt T (op_plus T (op_plus T
       (squared T (op_minus T v (if other = this then v else x h other)))
       (squared T (op_minus T (y h this) (y h other))))
       (squared T (op_minus T (z h this) (z h other)))) \<and>
   fst (distanceFrom T (ref_assign h (y_ref this) v) this other) =
     std_sqrt T (op_plus T (op_plus T
       (squared T (op_minus T (x h this) (x h other)))
       (squared T (op_minus T v (if other = this then v else y h other))))
       (squared T (op_minus T (z h this) (z h other)))) \<and>
   fst (distanceFrom T (ref_assign h (z_ref this) v) this other) =
     std_sqrt T (op_plus T (op_plus T
       (squared T (op_minus T (x h this) (x h other)))
       (squared T (op_minus T (y h this) (y h other))))
       (squared T (op_minus T v (if other = this then v else z h other)))) \<and>
   fst (distanceFrom T (ref_assign h (x_ref this) v) other this) =
     std_sqrt T (op_plus T (op_plus T
       (squared T (op_minus T (if other = this then v else x h other) v))
       (squared T (op_minus T (y h other) (y h this))))
       (squared T (op_minus T (z h other) (z h this)))) \<and>
   fst (distanceFrom T (ref_assign h (y_ref this) v) other this) =
     std_sqrt T (op_plus T (op_plus T
       (squared T (op_minus T (x h other) (x h this)))
       (squared T (op_minus T (if other = this then v else y h other) v)))
       (squared T (op_minus T (z h other) (z h this)))) \<and>
   fst (distanceFrom T (ref_assign h (z_ref this) v) other this) =
     std_sqrt T (op_plus T (op_plus T
       (squared T (op_minus T (x h other) (x h this)))
       (squared T (op_minus T (y h other) (y h this))))
       (squared T (op_minus T (if other = this then v else z h other) v)))"
  by (simp add: x_def y_def z_def x_ref_def y_ref_def z_ref_def distanceFrom_def squared_def)

text \<open>
  An \<open>int\<close> point at the origin, after \<open>p.x() = 3\<close> and \<open>p.y() = 4\<close>, is at distance
  \<open>5.0\<close> from the origin; before the two assignments the distance is \<open>0.0\<close>.
\<close>

theorem write_read_round_trip_witness:
  "x (ref_assign (ref_assign (all_at \<lparr>x_' = 0, y_' = 0, z_' = 0\<rparr>) (x_ref 0) 3) (y_ref 0) 4) 0 = 3 \<and>
   y (ref_assign (ref_assign (all_at \<lparr>x_' = 0, y_' = 0, z_' = 0\<rparr>) (x_ref 0) 3) (y_ref 0) 4) 0 = 4 \<and>
   fst (distanceFrom int_ops
      (ref_assign (ref_assign (all_at \<lparr>x_' = 0, y_' = 0, z_' = 0\<rparr>) (x_ref 0) 3) (y_ref 0) 4)
      0 1) = Some (dbl_of_int 5) \<and>
   fst (distanceFrom int_ops (all_at \<lparr>x_' = 0, y_' = 0, z_' = 0\<rparr>) 0 1) = Some dbl_zero"
  using write_read_round_trip
    [where T = int_ops
       and h = "ref_assign (all_at \<lparr>x_' = 0, y_' = 0, z_' = 0\<rparr>) (x_ref 0) 3"
       and this = 0 and v = 4 and other = 1]
  by (simp add: distanceFrom_def int_ops_def x_def y_def z_def x_ref_def y_ref_def all_at_def
      squared_def int_minus_def int_result_def dbl_of_int_def round_nearest_even_def pack_def
      dbl_zero_def)

section \<open>Properties of \<open>distanceFrom\<close> in every instantiation\<close>

text \<open>
  C1 (as amended). \<open>distanceFrom\<close> evaluates
  \<open>sqrt((x1-x2)*(x1-x2) + (y1-y2)*(y1-y2) + (z1-z2)*(z1-z2))\<close> in the coordinate type's
  own arithmetic, step by step as the specification words it, and returns a double;
  the result is the Euclidean distance as far as that arithmetic is exact.
  For \<open>Point<int>\<close> the call is defined exactly when the sum of the squared
  differences is at most \<open>INT_MAX\<close>, and its result is then the real Euclidean
  distance rounded to the nearest double. For \<open>Point<double>\<close> with integer
  coordinates of magnitude at most \<open>2^24\<close> the result is the real Euclidean distance
  rounded to the nearest double. Beyond that every operation rounds, overflows or
  underflows on its own.
\<close>

theorem distanceFrom_euclidean_where_exact:
  "fst (distanceFrom T h this other) = euclidean_distance T (h this) (h other) \<and>
   fst (distanceFrom int_ops g p q) =
     (if (sint (x g p) - sint (x g q))\<^sup>2 + (sint (y g p) - sint (y g q))\<^sup>2 +
         (sint (z g p) - sint (z g q))\<^sup>2 \<le> 2 ^ 31 - 1
      then Some (dbl_sqrt (dbl_of_int
         ((sint (x g p) - sint (x g q))\<^sup>2 + (sint (y g p) - sint (y g q))\<^sup>2 +
          (sint (z g p) - sint (z g q))\<^sup>2)))
      else None) \<and>
   ((sint (x g p) - sint (x g q))\<^sup>2 + (sint (y g p) - sint (y g q))\<^sup>2 +
      (sint (z g p) - sint (z g q))\<^sup>2 \<le> 2 ^ 31 - 1 \<longrightarrow>
    within_half_ulp
      (dbl_sqrt (dbl_of_int
         ((sint (x g p) - sint (x g q))\<^sup>2 + (sint (y g p) - sint (y g q))\<^sup>2 +
          (sint (z g p) - sint (z g q))\<^sup>2)))
      (sqrt (real_of_int
         ((sint (x g p) - sint (x g q))\<^sup>2 + (sint (y g p) - sint (y g q))\<^sup>2 +
          (sint (z g p) - sint (z g q))\<^sup>2)))) \<and>
   (x f r = dbl_of_int a1 \<and> y f r = dbl_of_int a2 \<and> z f r = dbl_of_int a3 \<and>
    x f s = dbl_of_int b1 \<and> y f s = dbl_of_int b2 \<and> z f s = dbl_of_int b3 \<and>
    \<bar>a1\<bar> \<le> 2 ^ 24 \<and> \<bar>a2\<bar> \<le> 2 ^ 24 \<and> \<bar>a3\<bar> \<le> 2 ^ 24 \<and>
    \<bar>b1\<bar> \<le> 2 ^ 24 \<and> \<bar>b2\<bar> \<le> 2 ^ 24 \<and> \<bar>b3\<bar> \<le> 2 ^ 24 \<longrightarrow>
    fst (distanceFrom double_ops f r s) =
      dbl_sqrt (dbl_of_int ((a1 - b1)\<^sup>2 + (a2 - b2)\<^sup>2 + (a3 - b3)\<^sup>2)) \<and>
    within_half_ulp
      (dbl_sqrt (dbl_of_int ((a1 - b1)\<^sup>2 + (a2 - b2)\<^sup>2 + (a3 - b3)\<^sup>2)))
      (sqrt (real_of_int ((a1 - b1)\<^sup>2 + (a2 - b2)\<^sup>2 + (a3 - b3)\<^sup>2))))"
proof (intro conjI impI)
  let ?S = "(sint (x g p) - sint (x g q))\<^sup>2 + (sint (y g p) - sint (y g q))\<^sup>2 +
         (sint (z g p) - sint (z g q))\<^sup>2"
  let ?D = "(a1 - b1)\<^sup>2 + (a2 - b2)\<^sup>2 + (a3 - b3)\<^sup>2"
  show "fst (distanceFrom T h this other) = euclidean_distance T (h this) (h other)"
    by (simp add: distanceFrom_def euclidean_distance_def axis_differences_def squared_def)
  show "fst (distanceFrom int_ops g p q) =
      (if ?S \<le> 2 ^ 31 - 1 then Some (dbl_sqrt (dbl_of_int ?S)) else None)"
  proof (cases "?S \<le> 2 ^ 31 - 1")
    case True
    then show ?thesis by (simp only: int_distance_defined if_True)
  next
    case False
    have "fst (distanceFrom int_ops g p q) = None"
    proof (cases "fst (distanceFrom int_ops g p q)")
      case None
      then show ?thesis .
    next
      case (Some d)
      from int_distance_Some [OF this] False show ?thesis by simp
    qed
    with False show ?thesis by (simp only: if_False)
  qed
  {
    assume "?S \<le> 2 ^ 31 - 1"
    then have "?S < 2 ^ 53" by simp
    moreover have "0 \<le> ?S" by simp
    ultimately show "within_half_ulp (dbl_sqrt (dbl_of_int ?S)) (sqrt (real_of_int ?S))"
      by (intro dbl_sqrt_of_int_within_half_ulp)
  }
  {
    assume a: "x f r = dbl_of_int a1 \<and> y f r = dbl_of_int a2 \<and> z f r = dbl_of_int a3 \<and>
      x f s = dbl_of_int b1 \<and> y f s = dbl_of_int b2 \<and> z f s = dbl_of_int b3 \<and>
      \<bar>a1\<bar> \<le> 2 ^ 24 \<and> \<bar>a2\<bar> \<le> 2 ^ 24 \<and> \<bar>a3\<bar> \<le> 2 ^ 24 \<and>
      \<bar>b1\<bar> \<le> 2 ^ 24 \<and> \<bar>b2\<bar> \<le> 2 ^ 24 \<and> \<bar>b3\<bar> \<le> 2 ^ 24"
    then have ex: "fst (distanceFrom double_ops f r s) = dbl_sqrt (dbl_of_int ?D) \<and> ?D < 2 ^ 53"
      by (intro double_distance_exact) simp_all
    then show "fst (distanceFrom double_ops f r s) = dbl_sqrt (dbl_of_int ?D)" ..
    have "0 \<le> ?D" by simp
    with ex show "within_half_ulp (dbl_sqrt (dbl_of_int ?D)) (sqrt (real_of_int ?D))"
      by (intro dbl_sqrt_of_int_within_half_ulp) simp_all
  }
qed

text \<open>
  The \<open>int\<close> points \<open>(0,0,0)\<close> and \<open>(1,1,1)\<close>, and the double points \<open>(0,0,0)\<close> and
  \<open>(3,4,0)\<close>.
\<close>

theorem distanceFrom_euclidean_where_exact_witness:
  "(3::int) \<le> 2 ^ 31 - 1 \<and>
   fst (distanceFrom int_ops
      (Point (Point (all_at \<lparr>x_' = 0, y_' = 0, z_' = 0\<rparr>) 0 0 0 0) 1 1 1 1) 0 1) =
     Some (dbl_sqrt (dbl_of_int 3)) \<and>
   within_half_ulp (dbl_sqrt (dbl_of_int 3)) (sqrt (real_of_int 3)) \<and>
   \<bar>3::int\<bar> \<le> 2 ^ 24 \<and> \<bar>4::int\<bar> \<le> 2 ^ 24 \<and> \<bar>0::int\<bar> \<le> 2 ^ 24 \<and>
   fst (distanceFrom double_ops
      (Point (Point (all_at \<lparr>x_' = dbl_zero, y_' = dbl_zero, z_' = dbl_zero\<rparr>)
         0 (dbl_of_int 0) (dbl_of_int 0) (dbl_of_int 0))
         1 (dbl_of_int 3) (dbl_of_int 4) (dbl_of_int 0)) 0 1) =
     dbl_sqrt (dbl_of_int 25) \<and>
   within_half_ulp (dbl_sqrt (dbl_of_int 25)) (sqrt (real_of_int 25))"
  using distanceFrom_euclidean_where_exact
    [where g = "Point (Point (all_at \<lparr>x_' = 0, y_' = 0, z_' = 0\<rparr>) 0 0 0 0) 1 1 1 1"
       and p = 0 and q = 1
       and f = "Point (Point (all_at \<lparr>x_' = dbl_zero, y_' = dbl_zero, z_' = dbl_zero\<rparr>)
         0 (dbl_of_int 0) (dbl_of_int 0) (dbl_of_int 0))
         1 (dbl_of_int 3) (dbl_of_int 4) (dbl_of_int 0)"
       and r = 0 and s = 1 and ?a1.0 = 0 and ?a2.0 = 0 and ?a3.0 = 0
       and ?b1.0 = 3 and ?b2.0 = 4 and ?b3.0 = 0, THEN conjunct2]
  by (simp add: x_def y_def z_def Point_def all_at_def)

text \<open>
  In \<open>Point<double>\<close> the points \<open>(1e200, 0, 0)\<close> and \<open>(-1e200, 0, 0)\<close> are at
  Euclidean distance \<open>2e200\<close>, which is a double (it is the difference of the two
  \<open>x\<close> coordinates), but the square of the difference overflows and \<open>distanceFrom\<close>
  returns \<open>+infinity\<close>. The point \<open>(1e-200, 0, 0)\<close> is not at the origin, but the
  square of its coordinate underflows and \<open>distanceFrom\<close> returns \<open>+0.0\<close>. In
  \<open>Point<int>\<close> the points \<open>(0,0,0)\<close> and \<open>(46341,0,0)\<close> have no defined distance.
\<close>

theorem distanceFrom_euclidean_counterexample:
  "fst (distanceFrom double_ops
      (Point (Point (all_at \<lparr>x_' = dbl_zero, y_' = dbl_zero, z_' = dbl_zero\<rparr>)
         0 (Fin False 5883593420661338 612) dbl_zero dbl_zero)
         1 (Fin True 5883593420661338 612) dbl_zero dbl_zero) 0 1) = Inf False \<and>
   dbl_sub (Fin False 5883593420661338 612) (Fin True 5883593420661338 612) =
     Fin False 5883593420661338 613 \<and>
   fst (distanceFrom double_ops
      (Point (Point (all_at \<lparr>x_' = dbl_zero, y_' = dbl_zero, z_' = dbl_zero\<rparr>)
         0 (Fin False 6894565328877484 (- 717)) dbl_zero dbl_zero)
         1 dbl_zero dbl_zero dbl_zero) 0 1) = dbl_zero \<and>
   \<not> dbl_eq (Fin False 6894565328877484 (- 717)) dbl_zero \<and>
   fst (distanceFrom int_ops
      (Point (Point (all_at \<lparr>x_' = 0, y_' = 0, z_' = 0\<rparr>) 0 0 0 0) 1 46341 0 0) 0 1) = None"
  by (simp add: distanceFrom_def double_ops_def int_ops_def Point_def all_at_def dbl_sub_def
      dbl_zero_def signed_def round_nearest_even_def pack_def int_minus_def int_result_def)

text \<open>
  C7. \<open>distanceFrom\<close> has no side effect: the store after the call is the store
  before it, so the coordinates of both points (and of every other object) are what
  they were.
\<close>

theorem distanceFrom_no_side_effects:
  "snd (distanceFrom T h this other) = h \<and>
   x (snd (distanceFrom T h this other)) this = x h this \<and>
   y (snd (distanceFrom T h this other)) this = y h this \<and>
   z (snd (distanceFrom T h this other)) this = z h this \<and>
   x (snd (distanceFrom T h this other)) other = x h other \<and>
   y (snd (distanceFrom T h this other)) other = y h other \<and>
   z (snd (distanceFrom T h this other)) other = z h other"
  by (simp add: distanceFrom_def)

section \<open>Properties of \<open>distanceFrom\<close> for \<open>Point<double>\<close> and \<open>Point<int>\<close>\<close>

text \<open>
  C4 (as amended). The distance of a point from itself is exactly \<open>+0.0\<close> for every
  \<open>Point<int>\<close>, and for every \<open>Point<double>\<close> whose three coordinates are finite.
  A \<open>Point<double>\<close> with a NaN or an infinite coordinate is at distance NaN from
  itself: the difference of that coordinate with itself is NaN, and the constructor
  rejects no value.
\<close>

theorem distance_identity_finite:
  "fst (distanceFrom int_ops g this this) = Some dbl_zero \<and>
   fst (distanceFrom double_ops h this this) =
     (if is_finite (x h this) \<and> is_finite (y h this) \<and> is_finite (z h this)
      then dbl_zero else NaN)"
proof
  have "int_times (Some 0) (Some 0) = Some 0" "int_plus (Some 0) (Some 0) = Some 0"
    by (simp_all add: int_result_def)
  then show "fst (distanceFrom int_ops g this this) = Some dbl_zero"
    by (simp add: distanceFrom_def int_ops_def int_minus_self dbl_of_int_0 dbl_sqrt_zero)
next
  have "fst (distanceFrom double_ops h this this) =
      dbl_sqrt (dbl_add (dbl_add
        (if is_finite (x h this) then dbl_zero else NaN)
        (if is_finite (y h this) then dbl_zero else NaN))
        (if is_finite (z h this) then dbl_zero else NaN))"
    by (simp only: distanceFrom_def double_ops_def fst_conv arith.simps square_self
        x_def y_def z_def)
  also have "\<dots> = (if is_finite (x h this) \<and> is_finite (y h this) \<and> is_finite (z h this)
      then dbl_zero else NaN)"
    by (simp add: dbl_add_zero_zero dbl_sqrt_zero dbl_add_NaN_right)
  finally show "fst (distanceFrom double_ops h this this) =
     (if is_finite (x h this) \<and> is_finite (y h this) \<and> is_finite (z h this)
      then dbl_zero else NaN)" .
qed

text \<open>The point \<open>(3, 4, -5)\<close>, in both instantiations.\<close>

theorem distance_identity_finite_witness:
  "is_finite (x (Point (all_at \<lparr>x_' = dbl_zero, y_' = dbl_zero, z_' = dbl_zero\<rparr>)
       0 (dbl_of_int 3) (dbl_of_int 4) (dbl_of_int (- 5))) 0) \<and>
   is_finite (y (Point (all_at \<lparr>x_' = dbl_zero, y_' = dbl_zero, z_' = dbl_zero\<rparr>)
       0 (dbl_of_int 3) (dbl_of_int 4) (dbl_of_int (- 5))) 0) \<and>
   is_finite (z (Point (all_at \<lparr>x_' = dbl_zero, y_' = dbl_zero, z_' = dbl_zero\<rparr>)
       0 (dbl_of_int 3) (dbl_of_int 4) (dbl_of_int (- 5))) 0) \<and>
   fst (distanceFrom double_ops
      (Point (all_at \<lparr>x_' = dbl_zero, y_' = dbl_zero, z_' = dbl_zero\<rparr>)
       0 (dbl_of_int 3) (dbl_of_int 4) (dbl_of_int (- 5))) 0 0) = dbl_zero \<and>
   fst (distanceFrom int_ops (Point (all_at \<lparr>x_' = 0, y_' = 0, z_' = 0\<rparr>) 0 3 4 (- 5)) 0 0) =
     Some dbl_zero"
  using distance_identity_finite
    [of "Point (all_at \<lparr>x_' = 0, y_' = 0, z_' = 0\<rparr>) 0 3 4 (- 5)" 0
        "Point (all_at \<lparr>x_' = dbl_zero, y_' = dbl_zero, z_' = dbl_zero\<rparr>)
           0 (dbl_of_int 3) (dbl_of_int 4) (dbl_of_int (- 5))"]
  by (simp add: x_def y_def z_def Point_def dbl_of_int_def round_nearest_even_def pack_def)

text \<open>
  The point \<open>(NaN, 0, 0)\<close> of \<open>Point<double>\<close> is at distance NaN from itself, and so
  is \<open>(+infinity, 0, 0)\<close>: neither distance equals \<open>0.0\<close>.
\<close>

theorem distance_identity_counterexample:
  "is_nan (fst (distanceFrom double_ops
      (Point (all_at \<lparr>x_' = dbl_zero, y_' = dbl_zero, z_' = dbl_zero\<rparr>)
         0 NaN dbl_zero dbl_zero) 0 0)) \<and>
   \<not> dbl_eq (fst (distanceFrom double_ops
      (Point (all_at \<lparr>x_' = dbl_zero, y_' = dbl_zero, z_' = dbl_zero\<rparr>)
         0 NaN dbl_zero dbl_zero) 0 0)) dbl_zero \<and>
   \<not> dbl_eq (fst (distanceFrom double_ops
      (Point (all_at \<lparr>x_' = dbl_zero, y_' = dbl_zero, z_' = dbl_zero\<rparr>)
         0 (Inf False) dbl_zero dbl_zero) 0 0)) dbl_zero"
  by (simp add: distanceFrom_def double_ops_def Point_def all_at_def dbl_sub_def dbl_zero_def)

text \<open>
  C5 (as amended). For all points \<open>p\<close> and \<open>q\<close> of \<open>Point<double>\<close>, and of
  \<open>Point<int>\<close>, \<open>p.distanceFrom(q)\<close> and \<open>q.distanceFrom(p)\<close> return the same result:
  the same double or both NaN, and for \<open>int\<close> both calls are defined or neither is.
  \<open>p.distanceFrom(q) == q.distanceFrom(p)\<close> holds exactly when that result is not
  NaN: in particular whenever all coordinates are finite doubles, and whenever the
  \<open>int\<close> call has a defined result. No tolerance is needed.
\<close>

theorem distance_symmetry_unless_nan:
  "fst (distanceFrom double_ops h p q) = fst (distanceFrom double_ops h q p) \<and>
   dbl_eq (fst (distanceFrom double_ops h p q)) (fst (distanceFrom double_ops h q p)) =
     (\<not> is_nan (fst (distanceFrom double_ops h p q))) \<and>
   (is_finite (x h p) \<and> is_finite (y h p) \<and> is_finite (z h p) \<and>
    is_finite (x h q) \<and> is_finite (y h q) \<and> is_finite (z h q) \<longrightarrow>
      dbl_eq (fst (distanceFrom double_ops h p q)) (fst (distanceFrom double_ops h q p))) \<and>
   fst (distanceFrom int_ops g p q) = fst (distanceFrom int_ops g q p) \<and>
   (fst (distanceFrom int_ops g p q) = Some d \<longrightarrow>
      fst (distanceFrom int_ops g q p) = Some d \<and> dbl_eq d d)"
proof (intro conjI impI)
  show "fst (distanceFrom double_ops h p q) = fst (distanceFrom double_ops h q p)"
    by (rule double_distance_sym)
  show "dbl_eq (fst (distanceFrom double_ops h p q)) (fst (distanceFrom double_ops h q p)) =
     (\<not> is_nan (fst (distanceFrom double_ops h p q)))"
    unfolding double_distance_sym [of h q p] by (rule dbl_eq_self)
  show "fst (distanceFrom int_ops g p q) = fst (distanceFrom int_ops g q p)"
    by (rule int_distance_sym)
  {
    assume "is_finite (x h p) \<and> is_finite (y h p) \<and> is_finite (z h p) \<and>
      is_finite (x h q) \<and> is_finite (y h q) \<and> is_finite (z h q)"
    then have "sign_clear (fst (distanceFrom double_ops h p q))"
      by (intro double_distance_clear) simp_all
    then have "\<not> is_nan (fst (distanceFrom double_ops h p q))" by (rule sign_clear_not_nan)
    then show "dbl_eq (fst (distanceFrom double_ops h p q)) (fst (distanceFrom double_ops h q p))"
      unfolding double_distance_sym [of h q p] by (simp add: dbl_eq_self)
  }
  {
    assume d: "fst (distanceFrom int_ops g p q) = Some d"
    then show "fst (distanceFrom int_ops g q p) = Some d"
      by (simp only: int_distance_sym [of g q p])
    from int_distance_clear [OF d] have "\<not> is_nan d" by (rule sign_clear_not_nan)
    then show "dbl_eq d d" by (simp add: dbl_eq_self)
  }
qed

text \<open>The points \<open>(0,0,0)\<close> and \<open>(3,4,0)\<close>, in both instantiations.\<close>

theorem distance_symmetry_unless_nan_witness:
  "is_finite (dbl_of_int 0) \<and> is_finite (dbl_of_int 3) \<and> is_finite (dbl_of_int 4) \<and>
   dbl_eq
     (fst (distanceFrom double_ops
        (Point (Point (all_at \<lparr>x_' = dbl_zero, y_' = dbl_zero, z_' = dbl_zero\<rparr>)
           0 (dbl_of_int 0) (dbl_of_int 0) (dbl_of_int 0))
           1 (dbl_of_int 3) (dbl_of_int 4) (dbl_of_int 0)) 0 1))
     (fst (distanceFrom double_ops
        (Point (Point (all_at \<lparr>x_' = dbl_zero, y_' = dbl_zero, z_' = dbl_zero\<rparr>)
           0 (dbl_of_int 0) (dbl_of_int 0) (dbl_of_int 0))
           1 (dbl_of_int 3) (dbl_of_int 4) (dbl_of_int 0)) 1 0)) \<and>
   fst (distanceFrom int_ops
      (Point (Point (all_at \<lparr>x_' = 0, y_' = 0, z_' = 0\<rparr>) 0 0 0 0) 1 3 4 0) 0 1) =
     Some (dbl_of_int 5) \<and>
   fst (distanceFrom int_ops
      (Point (Point (all_at \<lparr>x_' = 0, y_' = 0, z_' = 0\<rparr>) 0 0 0 0) 1 3 4 0) 1 0) =
     Some (dbl_of_int 5) \<and>
   dbl_eq (dbl_of_int 5) (dbl_of_int 5)"
proof -
  let ?H = "Point (Point (all_at \<lparr>x_' = dbl_zero, y_' = dbl_zero, z_' = dbl_zero\<rparr>)
           0 (dbl_of_int 0) (dbl_of_int 0) (dbl_of_int 0))
           1 (dbl_of_int 3) (dbl_of_int 4) (dbl_of_int 0)"
  let ?G = "Point (Point (all_at \<lparr>x_' = 0, y_' = 0, z_' = 0\<rparr>) 0 0 0 0) 1 3 4 (0 :: cpp_int)"
  have fin: "is_finite (dbl_of_int 0)" "is_finite (dbl_of_int 3)" "is_finite (dbl_of_int 4)"
    by (simp_all add: dbl_of_int_def round_nearest_even_def pack_def)
  then have coords: "is_finite (x ?H 0) \<and> is_finite (y ?H 0) \<and> is_finite (z ?H 0) \<and>
      is_finite (x ?H 1) \<and> is_finite (y ?H 1) \<and> is_finite (z ?H 1)"
    by (simp add: x_def y_def z_def Point_def)
  have int: "fst (distanceFrom int_ops ?G 0 1) = Some (dbl_of_int 5)"
    by (simp add: distanceFrom_def int_ops_def Point_def all_at_def int_minus_def int_result_def
        dbl_of_int_def round_nearest_even_def pack_def)
  from distance_symmetry_unless_nan [where h = ?H and p = 0 and q = 1 and g = ?G
      and d = "dbl_of_int 5"] coords int fin
  show ?thesis by blast
qed

text \<open>
  For \<open>p = (NaN, 0, 0)\<close> and \<open>q = (0, 0, 0)\<close> in \<open>Point<double>\<close> both calls return NaN,
  and \<open>NaN == NaN\<close> is false.
\<close>

theorem distance_symmetry_counterexample:
  "\<not> dbl_eq
     (fst (distanceFrom double_ops
        (Point (Point (all_at \<lparr>x_' = dbl_zero, y_' = dbl_zero, z_' = dbl_zero\<rparr>)
           0 NaN dbl_zero dbl_zero) 1 dbl_zero dbl_zero dbl_zero) 0 1))
     (fst (distanceFrom double_ops
        (Point (Point (all_at \<lparr>x_' = dbl_zero, y_' = dbl_zero, z_' = dbl_zero\<rparr>)
           0 NaN dbl_zero dbl_zero) 1 dbl_zero dbl_zero dbl_zero) 1 0))"
  by (simp add: distanceFrom_def double_ops_def Point_def all_at_def dbl_sub_def dbl_zero_def)

text \<open>
  C6. Known values. The distance from \<open>(0,0,0)\<close> to \<open>(3,4,0)\<close> is the double \<open>5.0\<close>,
  with double and with \<open>int\<close> coordinates. With \<open>int\<close> coordinates the distance from
  \<open>(0,0,0)\<close> to \<open>(1,1,1)\<close> is a double, not an integer: the double
  \<open>7800463371553962 * 2^(-52) = 1.7320508...\<close>, which is within half a unit in the
  last place (\<open>2^(-53)\<close>) of \<open>sqrt 3\<close>.
\<close>

theorem known_distances:
  "fst (distanceFrom double_ops
      (Point (Point (all_at \<lparr>x_' = dbl_zero, y_' = dbl_zero, z_' = dbl_zero\<rparr>)
         0 (dbl_of_int 0) (dbl_of_int 0) (dbl_of_int 0))
         1 (dbl_of_int 3) (dbl_of_int 4) (dbl_of_int 0)) 0 1) = dbl_of_int 5 \<and>
   valof (dbl_of_int 5) = Some 5 \<and>
   fst (distanceFrom int_ops
      (Point (Point (all_at \<lparr>x_' = 0, y_' = 0, z_' = 0\<rparr>) 0 0 0 0) 1 3 4 0) 0 1) =
     Some (dbl_of_int 5) \<and>
   fst (distanceFrom int_ops
      (Point (Point (all_at \<lparr>x_' = 0, y_' = 0, z_' = 0\<rparr>) 0 0 0 0) 1 1 1 1) 0 1) =
     Some (Fin False 7800463371553962 (- 52)) \<and>
   valof (Fin False 7800463371553962 (- 52)) = Some (7800463371553962 / 2 ^ 52) \<and>
   \<bar>7800463371553962 / 2 ^ 52 - sqrt 3\<bar> \<le> 1 / 2 ^ 53 \<and>
   (1.7320508 :: real) < 7800463371553962 / 2 ^ 52 \<and>
   (7800463371553962 / 2 ^ 52 :: real) < 1.7320509"
proof (intro conjI)
  show "fst (distanceFrom double_ops
      (Point (Point (all_at \<lparr>x_' = dbl_zero, y_' = dbl_zero, z_' = dbl_zero\<rparr>)
         0 (dbl_of_int 0) (dbl_of_int 0) (dbl_of_int 0))
         1 (dbl_of_int 3) (dbl_of_int 4) (dbl_of_int 0)) 0 1) = dbl_of_int 5"
    by (simp add: distanceFrom_def double_ops_def Point_def all_at_def dbl_sub_def
        dbl_of_int_def round_nearest_even_def pack_def signed_def)
  show "valof (dbl_of_int 5) = Some 5"
    by (simp add: dbl_of_int_def round_nearest_even_def pack_def signed_def pow2_def)
  show "fst (distanceFrom int_ops
      (Point (Point (all_at \<lparr>x_' = 0, y_' = 0, z_' = 0\<rparr>) 0 0 0 0) 1 3 4 0) 0 1) =
     Some (dbl_of_int 5)"
    by (simp add: distanceFrom_def int_ops_def Point_def all_at_def int_minus_def int_result_def
        dbl_of_int_def round_nearest_even_def pack_def)
  show "fst (distanceFrom int_ops
      (Point (Point (all_at \<lparr>x_' = 0, y_' = 0, z_' = 0\<rparr>) 0 0 0 0) 1 1 1 1) 0 1) =
     Some (Fin False 7800463371553962 (- 52))"
    by (simp add: distanceFrom_def int_ops_def Point_def all_at_def int_minus_def int_result_def
        dbl_of_int_def round_nearest_even_def pack_def)
  show "valof (Fin False 7800463371553962 (- 52)) = Some (7800463371553962 / 2 ^ 52)"
    by (simp add: signed_def pow2_def)
  show "\<bar>7800463371553962 / 2 ^ 52 - sqrt 3\<bar> \<le> 1 / 2 ^ 53"
    by (rule sqrt3_near)
  show "(1.7320508 :: real) < 7800463371553962 / 2 ^ 52" by simp
  show "(7800463371553962 / 2 ^ 52 :: real) < 1.7320509" by simp
qed

text \<open>
  C10 (as amended). \<open>0 <= p.distanceFrom(q)\<close> holds for all points of \<open>Point<double>\<close>
  whose coordinates are finite (the distance can be \<open>+infinity\<close>), and for all points
  of \<open>Point<int>\<close> for which the call has a defined result. For arbitrary points of
  \<open>Point<double>\<close> the distance is NaN or not less than zero.
\<close>

theorem distance_nonnegative_unless_nan:
  "(is_nan (fst (distanceFrom double_ops h p q)) \<or>
      dbl_le dbl_zero (fst (distanceFrom double_ops h p q))) \<and>
   (is_finite (x h p) \<and> is_finite (y h p) \<and> is_finite (z h p) \<and>
    is_finite (x h q) \<and> is_finite (y h q) \<and> is_finite (z h q) \<longrightarrow>
      dbl_le dbl_zero (fst (distanceFrom double_ops h p q))) \<and>
   (fst (distanceFrom int_ops g p q) = Some d \<longrightarrow> dbl_le dbl_zero d)"
proof (intro conjI impI)
  let ?r = "dbl_add (dbl_add
      (dbl_mul (dbl_sub (x_' (h p)) (x_' (h q))) (dbl_sub (x_' (h p)) (x_' (h q))))
      (dbl_mul (dbl_sub (y_' (h p)) (y_' (h q))) (dbl_sub (y_' (h p)) (y_' (h q)))))
      (dbl_mul (dbl_sub (z_' (h p)) (z_' (h q))) (dbl_sub (z_' (h p)) (z_' (h q))))"
  have d: "fst (distanceFrom double_ops h p q) = dbl_sqrt ?r"
    by (simp add: distanceFrom_def double_ops_def)
  have "is_nan (dbl_sqrt ?r) \<or> sign_clear (dbl_sqrt ?r)"
    by (rule nan_or_clear_sqrt) (rule radicand_nan_or_clear)
  then show "is_nan (fst (distanceFrom double_ops h p q)) \<or>
      dbl_le dbl_zero (fst (distanceFrom double_ops h p q))"
    unfolding d by (auto dest: sign_clear_le)
  {
    assume "is_finite (x h p) \<and> is_finite (y h p) \<and> is_finite (z h p) \<and>
      is_finite (x h q) \<and> is_finite (y h q) \<and> is_finite (z h q)"
    then have "sign_clear ?r"
      by (intro radicand_clear not_nan_sub) (simp_all add: x_def y_def z_def)
    then show "dbl_le dbl_zero (fst (distanceFrom double_ops h p q))"
      unfolding d by (intro sign_clear_le sign_clear_sqrt)
  }
  {
    assume "fst (distanceFrom int_ops g p q) = Some d"
    then have "int_sqrt (int_plus (int_plus
        (int_times (int_minus (x_' (g p)) (x_' (g q))) (int_minus (x_' (g p)) (x_' (g q))))
        (int_times (int_minus (y_' (g p)) (y_' (g q))) (int_minus (y_' (g p)) (y_' (g q)))))
        (int_times (int_minus (z_' (g p)) (z_' (g q))) (int_minus (z_' (g p)) (z_' (g q))))) = Some d"
      by (simp add: distanceFrom_def int_ops_def)
    from int_sqrt_Some [OF this] obtain v where
      v: "int_plus (int_plus
        (int_times (int_minus (x_' (g p)) (x_' (g q))) (int_minus (x_' (g p)) (x_' (g q))))
        (int_times (int_minus (y_' (g p)) (y_' (g q))) (int_minus (y_' (g p)) (y_' (g q)))))
        (int_times (int_minus (z_' (g p)) (z_' (g q))) (int_minus (z_' (g p)) (z_' (g q)))) = Some v"
      and dv: "d = dbl_sqrt (dbl_of_int v)"
      by blast
    from int_radicand_nonneg [OF v] have "0 \<le> v" .
    then show "dbl_le dbl_zero d"
      unfolding dv by (intro sign_clear_le sign_clear_sqrt sign_clear_of_nonneg)
  }
qed

text \<open>The points \<open>(0,0,0)\<close> and \<open>(3,4,0)\<close>, in both instantiations.\<close>

theorem distance_nonnegative_witness:
  "is_finite (dbl_of_int 3) \<and> is_finite (dbl_of_int 0) \<and> is_finite (dbl_of_int 4) \<and>
   dbl_le dbl_zero (fst (distanceFrom double_ops
      (Point (Point (all_at \<lparr>x_' = dbl_zero, y_' = dbl_zero, z_' = dbl_zero\<rparr>)
         0 (dbl_of_int 0) (dbl_of_int 0) (dbl_of_int 0))
         1 (dbl_of_int 3) (dbl_of_int 4) (dbl_of_int 0)) 0 1)) \<and>
   fst (distanceFrom int_ops
      (Point (Point (all_at \<lparr>x_' = 0, y_' = 0, z_' = 0\<rparr>) 0 0 0 0) 1 3 4 0) 0 1) =
     Some (dbl_of_int 5) \<and>
   dbl_le dbl_zero (dbl_of_int 5)"
  using distance_nonnegative_unless_nan
    [of "Point (Point (all_at \<lparr>x_' = dbl_zero, y_' = dbl_zero, z_' = dbl_zero\<rparr>)
         0 (dbl_of_int 0) (dbl_of_int 0) (dbl_of_int 0))
         1 (dbl_of_int 3) (dbl_of_int 4) (dbl_of_int 0)" 0 1
        "Point (Point (all_at \<lparr>x_' = 0, y_' = 0, z_' = 0\<rparr>) 0 0 0 0) 1 3 4 0" "dbl_of_int 5"]
  by (simp add: distanceFrom_def int_ops_def x_def y_def z_def Point_def all_at_def int_minus_def int_result_def
        dbl_of_int_def round_nearest_even_def pack_def)

text \<open>
  The distance from \<open>(NaN, 0, 0)\<close> to \<open>(0, 0, 0)\<close> in \<open>Point<double>\<close> is NaN, and
  \<open>0 <= NaN\<close> is false. In \<open>Point<int>\<close> the distance from \<open>(0, 0, 0)\<close> to
  \<open>(46341, 0, 0)\<close> has no defined value: \<open>46341 * 46341\<close> overflows \<open>int\<close>.
\<close>

theorem distance_nonnegative_counterexample:
  "\<not> dbl_le dbl_zero (fst (distanceFrom double_ops
      (Point (Point (all_at \<lparr>x_' = dbl_zero, y_' = dbl_zero, z_' = dbl_zero\<rparr>)
         0 NaN dbl_zero dbl_zero) 1 dbl_zero dbl_zero dbl_zero) 0 1)) \<and>
   fst (distanceFrom int_ops
      (Point (Point (all_at \<lparr>x_' = 0, y_' = 0, z_' = 0\<rparr>) 0 0 0 0) 1 46341 0 0) 0 1) = None"
  by (simp add: distanceFrom_def double_ops_def int_ops_def Point_def all_at_def dbl_sub_def
      dbl_zero_def int_minus_def int_result_def)

end
